theory Spec2Isabelle
  imports Complex_Main "HOL-Library.Word"
begin

section \<open>pyiga assembly tools: a shallow embedding of assemble_tools_cy.pyx\<close>

text \<open>
  Conventions of the embedding.
  \<^item> A C \<open>double\<close> is the \<open>real\<close> that it stands for. The entry kernels round the result
    of every product and sum to the nearest double (\<open>round_to_double\<close>); the sums of a
    sparse matrix and the arithmetic of the constructors are exact. Infinities, NaN,
    overflow and subnormal numbers are outside the model.
  \<^item> \<open>size_t\<close> indices and counts are \<open>nat\<close>, \<open>long\<close> and \<open>ssize_t\<close> values are \<open>int\<close>.
    The conversions that the code performs on data are written out: from a signed value
    to \<open>size_t\<close> (\<open>g_sta\<close>, \<open>g_end\<close>) as \<open>size_t_of_int\<close>, and from the \<open>ssize_t\<close> entries of
    a mesh-support table to the C \<open>int\<close> parameters of \<open>make_intv\<close> as \<open>c_int\<close>.
  \<^item> The code is compiled with \<open>boundscheck(False)\<close>: reading or writing outside an array
    is undefined behaviour. Such a step has the value \<open>None\<close> here, as has a loop that
    does not return.
  \<^item> A \<open>size_t[d]\<close> multi-index is a \<open>nat list\<close> of length \<open>d\<close>. The routines that the
    source writes twice, once with the constant 2 and once with 3, are modelled once over
    lists; the 2-D and 3-D versions are the instances at lists of length 2 and 3.
\<close>

subsection \<open>Intervals and the mesh-support table\<close>

type_synonym double = real

text \<open>\<open>cdef struct IntInterval: int a; int b\<close>\<close>

record IntInterval =
  intv_a :: int
  intv_b :: int

definition make_intv :: "int \<Rightarrow> int \<Rightarrow> IntInterval" where
  "make_intv x y = \<lparr>intv_a = x, intv_b = y\<rparr>"

definition intersect_intervals :: "IntInterval \<Rightarrow> IntInterval \<Rightarrow> IntInterval" where
  "intersect_intervals intva intvb =
     make_intv (max (intv_a intva) (intv_a intvb)) (min (intv_b intva) (intv_b intvb))"

text \<open>
  A mesh-support table \<open>ssize_t[:,::1]\<close> with two columns is the list of its rows:
  row \<open>j\<close> is \<open>(meshsupp[j,0], meshsupp[j,1])\<close>.
\<close>

type_synonym meshsupp_table = "(int \<times> int) list"

text \<open>
  The first loop of \<open>find_joint_support_functions\<close>:
  \<^verbatim>\<open>while j >= 0 and meshsupp[j,1] > meshsupp[i,0]: minj = j; j -= 1\<close>
\<close>

function scan_left :: "meshsupp_table \<Rightarrow> int \<Rightarrow> int \<Rightarrow> int \<Rightarrow> int" where
  "scan_left ms i j minj =
     (if j \<ge> 0 \<and> snd (ms ! nat j) > fst (ms ! nat i)
      then scan_left ms i (j - 1) j
      else minj)"
  by pat_completeness auto
termination
  by (relation "measure (\<lambda>(ms, i, j, minj). nat (j + 1))") auto

declare scan_left.simps [simp del]

text \<open>
  The second loop:
  \<^verbatim>\<open>while j < n and meshsupp[j,0] < meshsupp[i,1]: maxj = j; j += 1\<close>
\<close>

function scan_right :: "meshsupp_table \<Rightarrow> int \<Rightarrow> int \<Rightarrow> int \<Rightarrow> int \<Rightarrow> int" where
  "scan_right ms i n j maxj =
     (if j < n \<and> fst (ms ! nat j) < snd (ms ! nat i)
      then scan_right ms i n (j + 1) j
      else maxj)"
  by pat_completeness auto
termination
  by (relation "measure (\<lambda>(ms, i, n, j, maxj). nat (n - j))") auto

declare scan_right.simps [simp del]

text \<open>
  \<open>find_joint_support_functions(meshsupp, i)\<close>. Row \<open>i\<close> is read by the first loop when
  \<open>i \<ge> 0\<close> and by the second when \<open>i + 1 < n\<close>; every other row the loops read is guarded
  by their conditions. So the reads are in bounds exactly when \<open>0 \<le> i < n\<close>, or when no
  row is read at all (\<open>i < 0\<close> and \<open>n \<le> i + 1\<close>); otherwise the value is \<open>None\<close>.
\<close>

definition find_joint_support_functions :: "meshsupp_table \<Rightarrow> int \<Rightarrow> IntInterval option" where
  "find_joint_support_functions ms i =
     (let n = int (length ms) in
      if 0 \<le> i \<and> i < n then
        (let minj = scan_left ms i i i;
             maxj = scan_right ms i n (i + 1) i
         in Some (make_intv minj (maxj + 1)))
      else if i < 0 \<and> n \<le> i + 1 then Some (make_intv i (i + 1))
      else None)"

text \<open>
  Two supports overlap when their intersection is not empty; the code's test for an
  empty intersection is \<open>intv.a >= intv.b\<close>.
\<close>

definition supports_overlap :: "int \<times> int \<Rightarrow> int \<times> int \<Rightarrow> bool" where
  "supports_overlap r s =
     (let intv = intersect_intervals (make_intv (fst r) (snd r)) (make_intv (fst s) (snd s))
      in \<not> intv_a intv \<ge> intv_b intv)"

text \<open>
  Modelled from the spec: the brute-force linear scan of section 4.1 and section 8, which the
  repository does not contain. It tests every function's support against the support of
  function \<open>i\<close> and returns the indices that overlap, in increasing order.
\<close>

definition brute_force_neighbors :: "meshsupp_table \<Rightarrow> nat \<Rightarrow> nat list" where
  "brute_force_neighbors ms i = filter (\<lambda>j. supports_overlap (ms ! j) (ms ! i)) [0..<length ms]"

text \<open>The B-spline ordering of a table: both endpoints non-decreasing, no empty support.\<close>

definition left_sorted :: "meshsupp_table \<Rightarrow> bool" where
  "left_sorted ms = (\<forall>j<length ms. \<forall>k<length ms. j \<le> k \<longrightarrow> fst (ms ! j) \<le> fst (ms ! k))"

definition right_sorted :: "meshsupp_table \<Rightarrow> bool" where
  "right_sorted ms = (\<forall>j<length ms. \<forall>k<length ms. j \<le> k \<longrightarrow> snd (ms ! j) \<le> snd (ms ! k))"

definition supports_nonempty :: "meshsupp_table \<Rightarrow> bool" where
  "supports_nonempty ms = (\<forall>j<length ms. fst (ms ! j) < snd (ms ! j))"

subsection \<open>Multi-indices\<close>

text \<open>
  \<open>next_lexicographic2\<close> and \<open>next_lexicographic3\<close>:
  \<^verbatim>\<open>
  for i in range(d):
      cur[i] += 1
      if cur[i] == end[i]:
          if i == (d-1): return 0
          else: cur[i] = start[i]
      else: return 1
  \<close>
  The result is the updated \<open>cur\<close> and the returned flag. Axis 0 is advanced first, so
  it varies fastest. The three arrays have the same fixed length in the source; the last
  equation is for lists that do not (no such call exists in the source).
\<close>

fun next_lexicographic :: "nat list \<Rightarrow> nat list \<Rightarrow> nat list \<Rightarrow> nat list \<times> bool" where
  "next_lexicographic (c # cs) (s # ss) (e # es) =
     (if c + 1 = e then
        (if cs = [] then ((c + 1) # cs, False)
         else (case next_lexicographic cs ss es of (cs', go) \<Rightarrow> (s # cs', go)))
      else ((c + 1) # cs, True))"
| "next_lexicographic cur sta fin = (cur, False)"

text \<open>
  \<open>to_seq\<close>: \<open>ii[0] * ndofs[1] + ii[1]\<close> in 2-D and
  \<open>(ii[0] * ndofs[1] + ii[1]) * ndofs[2] + ii[2]\<close> in 3-D.
\<close>

fun to_seq_acc :: "nat \<Rightarrow> nat list \<Rightarrow> nat list \<Rightarrow> nat" where
  "to_seq_acc acc (n # ns) (k # ks) = to_seq_acc (acc * n + k) ns ks"
| "to_seq_acc acc ns ks = acc"

fun to_seq :: "nat list \<Rightarrow> nat list \<Rightarrow> nat" where
  "to_seq (n # ns) (k # ks) = to_seq_acc k ns ks"
| "to_seq ns ks = 0"

text \<open>
  \<open>from_seq\<close> of \<open>BaseAssembler2D\<close> and \<open>BaseAssembler3D\<close>, compiled with
  \<open>cdivision(True)\<close>: a division by zero is undefined behaviour, \<open>None\<close> here.
\<close>

definition from_seq2 :: "nat list \<Rightarrow> nat \<Rightarrow> nat list option" where
  "from_seq2 nd i = (if nd ! 1 = 0 then None else Some [i div (nd ! 1), i mod (nd ! 1)])"

definition from_seq3 :: "nat list \<Rightarrow> nat \<Rightarrow> nat list option" where
  "from_seq3 nd i =
     (if nd ! 2 = 0 \<or> nd ! 1 = 0 then None
      else (let out2 = i mod (nd ! 2);
                i1 = i div (nd ! 2);
                out1 = i1 mod (nd ! 1);
                i0 = i1 div (nd ! 1)
            in Some [i0, out1, out2]))"

subsection \<open>The assembler base class\<close>

text \<open>
  \<open>BaseAssembler2D\<close> and \<open>BaseAssembler3D\<close>: \<open>nqp\<close>, \<open>ndofs\<close> and one mesh-support table
  per axis. The virtual method \<open>assemble_impl\<close> is a parameter \<open>impl\<close> of the routines that
  call it; its value is \<open>None\<close> where the method reads outside a table.
\<close>

record BaseAssembler =
  nqp :: int
  ndofs :: "nat list"
  meshsupp :: "meshsupp_table list"

type_synonym assemble_impl_fn = "nat list \<Rightarrow> nat list \<Rightarrow> double option"

text \<open>\<open>shared_clone\<close> of the four concrete assemblers: \<open>return self\<close>.\<close>

definition shared_clone :: "'a BaseAssembler_scheme \<Rightarrow> 'a BaseAssembler_scheme" where
  "shared_clone asm = asm"

text \<open>\<open>assemble(i, j)\<close>: both indices through \<open>from_seq\<close>, then \<open>assemble_impl\<close>.\<close>

definition assemble2 :: "assemble_impl_fn \<Rightarrow> 'a BaseAssembler_scheme \<Rightarrow> nat \<Rightarrow> nat \<Rightarrow> double option" where
  "assemble2 impl asm i j =
     (case from_seq2 (ndofs asm) i of None \<Rightarrow> None
      | Some I \<Rightarrow> (case from_seq2 (ndofs asm) j of None \<Rightarrow> None
          | Some J \<Rightarrow> impl I J))"

definition assemble3 :: "assemble_impl_fn \<Rightarrow> 'a BaseAssembler_scheme \<Rightarrow> nat \<Rightarrow> nat \<Rightarrow> double option" where
  "assemble3 impl asm i j =
     (case from_seq3 (ndofs asm) i of None \<Rightarrow> None
      | Some I \<Rightarrow> (case from_seq3 (ndofs asm) j of None \<Rightarrow> None
          | Some J \<Rightarrow> impl I J))"

subsection \<open>The sparsity-aware traversal\<close>

text \<open>
  Both \<open>while True:\<close> loops of \<open>generic_assemble_2d\<close> and \<open>generic_assemble_3d\<close> have the
  shape
  \<^verbatim>\<open>
  while True:
      body(cur)
      if not next_lexicographic(cur, start, end): break
  \<close>
  with the vectors of entries as the state that the body extends. The loop need not
  return: it is a partial function, \<open>None\<close> where it does not return or the body has no
  value.
\<close>

partial_function (option) lex_loop ::
  "(nat list \<Rightarrow> 's \<Rightarrow> 's option) \<Rightarrow> nat list \<Rightarrow> nat list \<Rightarrow> nat list \<Rightarrow> 's \<Rightarrow> 's option" where
  "lex_loop body cur sta fin st =
     (case body cur st of None \<Rightarrow> None
      | Some st' \<Rightarrow>
          (case next_lexicographic cur sta fin of
             (cur', go) \<Rightarrow> if go then lex_loop body cur' sta fin st' else Some st'))"

text \<open>
  The three vectors \<open>entries_i\<close>, \<open>entries_j\<close>, \<open>entries\<close> grow together; they are one list
  of triplets (row, column, value).
\<close>

type_synonym triplet = "nat \<times> nat \<times> double"

text \<open>The body of the loop over \<open>j\<close>.\<close>

definition emit_entries ::
  "assemble_impl_fn \<Rightarrow> nat list \<Rightarrow> nat list \<Rightarrow> nat list \<Rightarrow> triplet list \<Rightarrow> triplet list option" where
  "emit_entries impl nd i j entries =
     (let ii = to_seq nd i; jj = to_seq nd j in
      if jj \<ge> ii then
        (case impl i j of None \<Rightarrow> None
         | Some entry \<Rightarrow>
             Some (entries @ [(ii, jj, entry)] @ (if ii \<noteq> jj then [(jj, ii, entry)] else [])))
      else Some entries)"

text \<open>
  \<^verbatim>\<open>
  for k in range(d):
      intv = find_joint_support_functions(asm.meshsupp[k], i[k])
      neigh_j_start[k] = intv.a
      neigh_j_end[k] = intv.b
  \<close>
\<close>

definition neighbor_ranges :: "meshsupp_table list \<Rightarrow> nat list \<Rightarrow> (nat list \<times> nat list) option" where
  "neighbor_ranges mss i =
     (case those (map2 (\<lambda>ms ik. find_joint_support_functions ms (int ik)) mss i) of
        None \<Rightarrow> None
      | Some intvs \<Rightarrow> Some (map (\<lambda>intv. nat (intv_a intv)) intvs, map (\<lambda>intv. nat (intv_b intv)) intvs))"

text \<open>The body of the loop over \<open>i\<close>: the neighbour ranges of \<open>i\<close>, then the loop over \<open>j\<close>.\<close>

definition assemble_row ::
  "assemble_impl_fn \<Rightarrow> 'a BaseAssembler_scheme \<Rightarrow> nat list \<Rightarrow> triplet list \<Rightarrow> triplet list option" where
  "assemble_row impl asm i entries =
     (case neighbor_ranges (meshsupp asm) i of None \<Rightarrow> None
      | Some (neigh_j_start, neigh_j_end) \<Rightarrow>
          lex_loop (emit_entries impl (ndofs asm) i) neigh_j_start neigh_j_start neigh_j_end entries)"

text \<open>The range of the traversal: all of every axis, with axis 0 cut to the chunk.\<close>

definition dof_start :: "'a BaseAssembler_scheme \<Rightarrow> int \<Rightarrow> nat list" where
  "dof_start asm chunk_start =
     (let ds = replicate (length (ndofs asm)) 0
      in if chunk_start \<ge> 0 then ds[0 := nat chunk_start] else ds)"

definition dof_end :: "'a BaseAssembler_scheme \<Rightarrow> int \<Rightarrow> nat list" where
  "dof_end asm chunk_end =
     (let de = ndofs asm
      in if chunk_end \<ge> 0 then de[0 := nat chunk_end] else de)"

definition assemble_triplets ::
  "assemble_impl_fn \<Rightarrow> 'a BaseAssembler_scheme \<Rightarrow> int \<Rightarrow> int \<Rightarrow> triplet list option" where
  "assemble_triplets impl asm chunk_start chunk_end =
     lex_loop (assemble_row impl asm) (dof_start asm chunk_start)
       (dof_start asm chunk_start) (dof_end asm chunk_end) []"

text \<open>
  The sparse matrix that \<open>scipy.sparse.coo_matrix((entries, (entries_i, entries_j)),
  shape=(N,N)).tocsr()\<close> returns, as the spec describes it (section 4.5, step 2): shape
  \<open>(N,N)\<close>, the values at equal coordinates summed. scipy refuses a coordinate outside the
  shape.
\<close>

record sparse_matrix =
  shape :: nat
  entry_at :: "nat \<Rightarrow> nat \<Rightarrow> double"

definition triplet_at :: "nat \<Rightarrow> nat \<Rightarrow> triplet \<Rightarrow> double" where
  "triplet_at r c t = (case t of (r', c', v) \<Rightarrow> if r' = r \<and> c' = c then v else 0)"

definition coo_matrix_tocsr :: "triplet list \<Rightarrow> nat \<Rightarrow> sparse_matrix option" where
  "coo_matrix_tocsr entries N =
     (if list_all (\<lambda>(r, c, v). r < N \<and> c < N) entries
      then Some \<lparr>shape = N, entry_at = (\<lambda>r c. sum_list (map (triplet_at r c) entries))\<rparr>
      else None)"

definition generic_assemble ::
  "assemble_impl_fn \<Rightarrow> 'a BaseAssembler_scheme \<Rightarrow> int \<Rightarrow> int \<Rightarrow> sparse_matrix option" where
  "generic_assemble impl asm chunk_start chunk_end =
     (case assemble_triplets impl asm chunk_start chunk_end of None \<Rightarrow> None
      | Some entries \<Rightarrow> coo_matrix_tocsr entries (prod_list (ndofs asm)))"

subsection \<open>The parallel driver\<close>

text \<open>A Python \<open>range(start, stop)\<close> with step 1, and its slice \<open>r[i:j]\<close> for \<open>0 \<le> i \<le> j\<close>.\<close>

record py_range =
  range_start :: nat
  range_stop :: nat

definition range_it :: "nat \<Rightarrow> py_range" where
  "range_it n = \<lparr>range_start = 0, range_stop = n\<rparr>"

definition range_len :: "py_range \<Rightarrow> nat" where
  "range_len r = range_stop r - range_start r"

definition range_list :: "py_range \<Rightarrow> nat list" where
  "range_list r = [range_start r..<range_stop r]"

definition range_slice :: "py_range \<Rightarrow> nat \<Rightarrow> nat \<Rightarrow> py_range" where
  "range_slice r i j =
     \<lparr>range_start = min (range_start r + i) (max (range_start r) (range_stop r)),
      range_stop = min (range_start r + j) (max (range_start r) (range_stop r))\<rparr>"

text \<open>
  \<^verbatim>\<open>
  def chunk_tasks(tasks, num_chunks):
      n = len(tasks) // num_chunks + 1
      for i in range(0, len(tasks), n):
          yield tasks[i:i+n]
  \<close>
  for \<open>tasks\<close> a range. \<open>//\<close> raises ZeroDivisionError for \<open>num_chunks = 0\<close> and \<open>range\<close>
  raises ValueError for a step of 0 (both \<open>None\<close>); a negative step gives no chunk. For
  \<open>n > 0\<close> the loop variable takes the values \<open>0, n, 2n, ...\<close> below \<open>len(tasks)\<close>.
\<close>

definition chunk_tasks :: "py_range \<Rightarrow> int \<Rightarrow> py_range list option" where
  "chunk_tasks tasks num_chunks =
     (if num_chunks = 0 then None
      else (let n = int (range_len tasks) div num_chunks + 1 in
            if n = 0 then None
            else if n < 0 then Some []
            else Some (map (\<lambda>k. range_slice tasks (k * nat n) (k * nat n + nat n))
                        [0..<(range_len tasks + nat n - 1) div nat n])))"

text \<open>
  \<open>sum(results)\<close> is \<open>((0 + r1) + r2) + ...\<close>; \<open>0 + r1\<close> is \<open>r1\<close>, and the sum of two sparse
  matrices is their coordinate-wise sum, refused when the shapes differ. For no result
  at all, \<open>sum\<close> returns the integer 0, which is not a sparse matrix: \<open>None\<close>.
\<close>

definition matrix_add :: "sparse_matrix \<Rightarrow> sparse_matrix \<Rightarrow> sparse_matrix option" where
  "matrix_add x y =
     (if shape x = shape y
      then Some \<lparr>shape = shape x, entry_at = (\<lambda>r c. entry_at x r c + entry_at y r c)\<rparr>
      else None)"

fun py_sum_from :: "sparse_matrix \<Rightarrow> sparse_matrix list \<Rightarrow> sparse_matrix option" where
  "py_sum_from acc [] = Some acc"
| "py_sum_from acc (x # xs) =
     (case matrix_add acc x of None \<Rightarrow> None | Some acc' \<Rightarrow> py_sum_from acc' xs)"

fun py_sum :: "sparse_matrix list \<Rightarrow> sparse_matrix option" where
  "py_sum [] = None"
| "py_sum (x # xs) = py_sum_from x xs"

text \<open>
  \<open>generic_assemble_2d_parallel\<close> and \<open>generic_assemble_3d_parallel\<close>, with the value of
  \<open>pyiga.get_max_threads()\<close> as the parameter \<open>num_threads\<close>. The thread pool's \<open>map\<close>
  returns the results in the order of the chunks, and raises if a worker raised.
\<close>

definition asm_chunk ::
  "assemble_impl_fn \<Rightarrow> 'a BaseAssembler_scheme \<Rightarrow> py_range \<Rightarrow> sparse_matrix option" where
  "asm_chunk impl asm rg =
     (let asm_clone = shared_clone asm
      in generic_assemble impl asm_clone (int (range_start rg)) (int (range_stop rg)))"

definition generic_assemble_parallel ::
  "assemble_impl_fn \<Rightarrow> 'a BaseAssembler_scheme \<Rightarrow> int \<Rightarrow> sparse_matrix option" where
  "generic_assemble_parallel impl asm num_threads =
     (if num_threads \<le> 1 then generic_assemble impl asm (- 1) (- 1)
      else (case chunk_tasks (range_it (ndofs asm ! 0)) (4 * num_threads) of None \<Rightarrow> None
            | Some chunks \<Rightarrow>
                (case those (map (asm_chunk impl asm) chunks) of None \<Rightarrow> None
                 | Some results \<Rightarrow> py_sum results)))"

text \<open>
  What the theorems about the traversal assume of an assembler: at least one axis, on
  every axis a positive dof count and a mesh-support table with one row per dof
  (\<open>base_init\<close> takes both from the same knot vector), and an \<open>assemble_impl\<close> that has a
  value at every pair of multi-indices inside the dof ranges.
\<close>

definition assembler_wf :: "'a BaseAssembler_scheme \<Rightarrow> bool" where
  "assembler_wf asm =
     (ndofs asm \<noteq> [] \<and> list_all2 (\<lambda>n ms. 0 < n \<and> length ms = n) (ndofs asm) (meshsupp asm))"

definition valid_index :: "nat list \<Rightarrow> nat list \<Rightarrow> bool" where
  "valid_index nd i = list_all2 (\<lambda>k n. k < n) i nd"

definition impl_defined :: "assemble_impl_fn \<Rightarrow> nat list \<Rightarrow> bool" where
  "impl_defined impl nd = (\<forall>i j. valid_index nd i \<and> valid_index nd j \<longrightarrow> impl i j \<noteq> None)"

text \<open>
  The multi-indices of a box in the order of the traversal (axis 0 fastest), and the
  neighbour box of a multi-index.
\<close>

fun lex_box :: "nat list \<Rightarrow> nat list \<Rightarrow> nat list list" where
  "lex_box (s # ss) (e # es) = concat (map (\<lambda>ds. map (\<lambda>x. x # ds) [s..<e]) (lex_box ss es))"
| "lex_box sta fin = [[]]"

fun lex_from :: "nat list \<Rightarrow> nat list \<Rightarrow> nat list \<Rightarrow> nat list list" where
  "lex_from (c # cs) (s # ss) (e # es) =
     map (\<lambda>x. x # cs) [c..<e]
     @ concat (map (\<lambda>ds. map (\<lambda>x. x # ds) [s..<e]) (tl (lex_from cs ss es)))"
| "lex_from cur sta fin = [[]]"

definition in_box :: "nat list \<Rightarrow> nat list \<Rightarrow> nat list \<Rightarrow> bool" where
  "in_box sta fin i = (list_all2 (\<lambda>s k. s \<le> k) sta i \<and> list_all2 (\<lambda>k e. k < e) i fin)"

text \<open>
  Modelled from the spec: the triplets that section 4.5 says the traversal emits (steps 1.a and
  1.b), written without the loops. For a pair \<open>(i, j)\<close> with \<open>jj \<ge> ii\<close>: the triplet
  \<open>(ii, jj, entry)\<close> and, when \<open>ii \<noteq> jj\<close>, its mirror; for a row \<open>i\<close>: the pairs with \<open>j\<close> in the
  box of the per-axis neighbour ranges; for a chunk \<open>[a, b)\<close> of axis 0: the rows of the
  box \<open>[a, b)\<close> times the full ranges of the other axes.
\<close>

definition spec_pair_triplets :: "assemble_impl_fn \<Rightarrow> nat list \<Rightarrow> nat list \<Rightarrow> nat list \<Rightarrow> triplet list" where
  "spec_pair_triplets impl nd i j =
     (let ii = to_seq nd i; jj = to_seq nd j in
      if jj \<ge> ii then
        (case impl i j of None \<Rightarrow> []
         | Some entry \<Rightarrow> (ii, jj, entry) # (if ii \<noteq> jj then [(jj, ii, entry)] else []))
      else [])"

definition spec_row_triplets ::
  "assemble_impl_fn \<Rightarrow> 'a BaseAssembler_scheme \<Rightarrow> nat list \<Rightarrow> triplet list" where
  "spec_row_triplets impl asm i =
     (case neighbor_ranges (meshsupp asm) i of None \<Rightarrow> []
      | Some (ns, ne) \<Rightarrow> concat (map (spec_pair_triplets impl (ndofs asm) i) (lex_box ns ne)))"

definition spec_triplets ::
  "assemble_impl_fn \<Rightarrow> 'a BaseAssembler_scheme \<Rightarrow> nat \<Rightarrow> nat \<Rightarrow> triplet list" where
  "spec_triplets impl asm a b =
     concat (map (spec_row_triplets impl asm)
       (lex_box (a # replicate (length (ndofs asm) - 1) 0) (b # tl (ndofs asm))))"

text \<open>
  The chunk of axis 0 that \<open>generic_assemble\<close> traverses for given \<open>chunk_start\<close> and
  \<open>chunk_end\<close> (a negative value stands for the end of the full range), whether \<open>j\<close> lies in
  the neighbour box of \<open>i\<close>, and the number of triplets of a list at a coordinate.
\<close>

definition chunk_lo :: "int \<Rightarrow> nat" where
  "chunk_lo chunk_start = (if chunk_start \<ge> 0 then nat chunk_start else 0)"

definition chunk_hi :: "'a BaseAssembler_scheme \<Rightarrow> int \<Rightarrow> nat" where
  "chunk_hi asm chunk_end = (if chunk_end \<ge> 0 then nat chunk_end else ndofs asm ! 0)"

definition in_neighbor_box :: "'a BaseAssembler_scheme \<Rightarrow> nat list \<Rightarrow> nat list \<Rightarrow> bool" where
  "in_neighbor_box asm i j =
     (case neighbor_ranges (meshsupp asm) i of None \<Rightarrow> False | Some (ns, ne) \<Rightarrow> in_box ns ne j)"

definition count_at :: "nat \<Rightarrow> nat \<Rightarrow> triplet list \<Rightarrow> nat" where
  "count_at r c entries = length (filter (\<lambda>t. fst t = r \<and> fst (snd t) = c) entries)"

text \<open>
  The sum over the triplets of a list at a coordinate of a function \<open>w\<close> of their values:
  with the value itself it is the entry of the matrix at the coordinate, with the constant
  1 it is the number of triplets there.
\<close>

definition weighted_at :: "(double \<Rightarrow> 'a :: comm_monoid_add) \<Rightarrow> nat \<Rightarrow> nat \<Rightarrow> triplet list \<Rightarrow> 'a" where
  "weighted_at w r c entries =
     sum_list (map (\<lambda>t. if fst t = r \<and> fst (snd t) = c then w (snd (snd t)) else 0) entries)"

subsection \<open>Entry kernels\<close>

text \<open>
  Arithmetic on doubles. A double other than 0 is \<open>m * 2\<^sup>e\<close> for an integer \<open>m\<close> of 53 bits
  (\<open>2\<^sup>5\<^sup>2 \<le> |m| < 2\<^sup>5\<^sup>3\<close>); a product or a sum of two doubles is the exact result rounded
  to the nearest such number, a tie to the one with an even \<open>m\<close>. The exponent \<open>e\<close> is not
  bounded here. Every operation rounds once: no fused multiply-add, no intermediate
  of a higher precision.
\<close>

definition round_half_even :: "real \<Rightarrow> int" where
  "round_half_even x =
     (let f = \<lfloor>x\<rfloor>; r = x - of_int f
      in if r < 1 / 2 then f else if 1 / 2 < r then f + 1 else if even f then f else f + 1)"

definition round_to_double :: "real \<Rightarrow> double" where
  "round_to_double x =
     (if x = 0 then 0
      else (let e = \<lfloor>log 2 \<bar>x\<bar>\<rfloor> - 52
            in of_int (round_half_even (x / 2 powr of_int e)) * 2 powr of_int e))"

text \<open>
  The kernels take the rounding of their operations as the parameter \<open>rnd\<close>: the code is
  the kernel at \<open>round_to_double\<close>, and the kernel at the identity is the same expression
  in exact arithmetic. \<open>a * b * c\<close> is \<open>(a * b) * c\<close> in C.
\<close>

definition fmul :: "(real \<Rightarrow> double) \<Rightarrow> double \<Rightarrow> double \<Rightarrow> double" where
  "fmul rnd x y = rnd (x * y)"

definition fadd :: "(real \<Rightarrow> double) \<Rightarrow> double \<Rightarrow> double \<Rightarrow> double" where
  "fadd rnd x y = rnd (x + y)"

text \<open>
  A tensor is a function of its indices. The kernels get the extents \<open>n0\<close>, \<open>n1\<close>, \<open>n2\<close>
  of the restricted weight tensor, the tensor itself, and the four or six pointers as
  functions of the offset. A loop \<open>for i0 in range(n0): ... result += t\<close> is a left fold.
\<close>

definition combine_mass_2d ::
  "(real \<Rightarrow> double) \<Rightarrow> nat \<Rightarrow> nat \<Rightarrow> (nat \<Rightarrow> nat \<Rightarrow> double)
   \<Rightarrow> (nat \<Rightarrow> double) \<Rightarrow> (nat \<Rightarrow> double) \<Rightarrow> (nat \<Rightarrow> double) \<Rightarrow> (nat \<Rightarrow> double) \<Rightarrow> double" where
  "combine_mass_2d rnd n0 n1 J Vu0 Vu1 Vv0 Vv1 =
     foldl (\<lambda>result i0.
       foldl (\<lambda>result i1.
         fadd rnd result
           (fmul rnd (fmul rnd (fmul rnd (fmul rnd (Vu0 i0) (Vu1 i1)) (Vv0 i0)) (Vv1 i1))
              (J i0 i1)))
         result [0..<n1])
       0 [0..<n0]"

text \<open>
  \<open>Bptr = &B[i0, i1, 0, 0]\<close>: \<open>Bptr[m]\<close> is entry \<open>m\<close> of the row-major 2 x 2 block at the
  node, here \<open>Bv i0 i1 m\<close>.
\<close>

definition combine_stiff_2d ::
  "(real \<Rightarrow> double) \<Rightarrow> nat \<Rightarrow> nat \<Rightarrow> (nat \<Rightarrow> nat \<Rightarrow> nat \<Rightarrow> double)
   \<Rightarrow> (nat \<Rightarrow> double) \<Rightarrow> (nat \<Rightarrow> double) \<Rightarrow> (nat \<Rightarrow> double) \<Rightarrow> (nat \<Rightarrow> double) \<Rightarrow> double" where
  "combine_stiff_2d rnd n0 n1 Bv VDu0 VDu1 VDv0 VDv1 =
     foldl (\<lambda>result i0.
       foldl (\<lambda>result i1.
         (let Bptr = Bv i0 i1;
              gu0 = fmul rnd (VDu0 (2 * i0)) (VDu1 (2 * i1 + 1));
              gu1 = fmul rnd (VDu0 (2 * i0 + 1)) (VDu1 (2 * i1));
              gv0 = fmul rnd (VDv0 (2 * i0)) (VDv1 (2 * i1 + 1));
              gv1 = fmul rnd (VDv0 (2 * i0 + 1)) (VDv1 (2 * i1));
              result1 = fadd rnd result
                (fmul rnd (fadd rnd (fmul rnd (Bptr 0) gu0) (fmul rnd (Bptr 1) gu1)) gv0)
          in fadd rnd result1
               (fmul rnd (fadd rnd (fmul rnd (Bptr 2) gu0) (fmul rnd (Bptr 3) gu1)) gv1)))
         result [0..<n1])
       0 [0..<n0]"

definition combine_mass_3d ::
  "(real \<Rightarrow> double) \<Rightarrow> nat \<Rightarrow> nat \<Rightarrow> nat \<Rightarrow> (nat \<Rightarrow> nat \<Rightarrow> nat \<Rightarrow> double)
   \<Rightarrow> (nat \<Rightarrow> double) \<Rightarrow> (nat \<Rightarrow> double) \<Rightarrow> (nat \<Rightarrow> double)
   \<Rightarrow> (nat \<Rightarrow> double) \<Rightarrow> (nat \<Rightarrow> double) \<Rightarrow> (nat \<Rightarrow> double) \<Rightarrow> double" where
  "combine_mass_3d rnd n0 n1 n2 J Vu0 Vu1 Vu2 Vv0 Vv1 Vv2 =
     foldl (\<lambda>result i0.
       foldl (\<lambda>result i1.
         foldl (\<lambda>result i2.
           fadd rnd result
             (fmul rnd
               (fmul rnd
                 (fmul rnd
                   (fmul rnd (fmul rnd (fmul rnd (Vu0 i0) (Vu1 i1)) (Vu2 i2)) (Vv0 i0))
                   (Vv1 i1))
                 (Vv2 i2))
               (J i0 i1 i2)))
           result [0..<n2])
         result [0..<n1])
       0 [0..<n0]"

definition combine_stiff_3d ::
  "(real \<Rightarrow> double) \<Rightarrow> nat \<Rightarrow> nat \<Rightarrow> nat \<Rightarrow> (nat \<Rightarrow> nat \<Rightarrow> nat \<Rightarrow> nat \<Rightarrow> double)
   \<Rightarrow> (nat \<Rightarrow> double) \<Rightarrow> (nat \<Rightarrow> double) \<Rightarrow> (nat \<Rightarrow> double)
   \<Rightarrow> (nat \<Rightarrow> double) \<Rightarrow> (nat \<Rightarrow> double) \<Rightarrow> (nat \<Rightarrow> double) \<Rightarrow> double" where
  "combine_stiff_3d rnd n0 n1 n2 Bv VDu0 VDu1 VDu2 VDv0 VDv1 VDv2 =
     foldl (\<lambda>result i0.
       foldl (\<lambda>result i1.
         foldl (\<lambda>result i2.
           (let Bptr = Bv i0 i1 i2;
                gu0 = fmul rnd (fmul rnd (VDu0 (2 * i0)) (VDu1 (2 * i1))) (VDu2 (2 * i2 + 1));
                gu1 = fmul rnd (fmul rnd (VDu0 (2 * i0)) (VDu1 (2 * i1 + 1))) (VDu2 (2 * i2));
                gu2 = fmul rnd (fmul rnd (VDu0 (2 * i0 + 1)) (VDu1 (2 * i1))) (VDu2 (2 * i2));
                gv0 = fmul rnd (fmul rnd (VDv0 (2 * i0)) (VDv1 (2 * i1))) (VDv2 (2 * i2 + 1));
                gv1 = fmul rnd (fmul rnd (VDv0 (2 * i0)) (VDv1 (2 * i1 + 1))) (VDv2 (2 * i2));
                gv2 = fmul rnd (fmul rnd (VDv0 (2 * i0 + 1)) (VDv1 (2 * i1))) (VDv2 (2 * i2));
                result1 = fadd rnd result
                  (fmul rnd
                    (fadd rnd (fadd rnd (fmul rnd (Bptr 0) gu0) (fmul rnd (Bptr 1) gu1))
                       (fmul rnd (Bptr 2) gu2))
                    gv0);
                result2 = fadd rnd result1
                  (fmul rnd
                    (fadd rnd (fadd rnd (fmul rnd (Bptr 3) gu0) (fmul rnd (Bptr 4) gu1))
                       (fmul rnd (Bptr 5) gu2))
                    gv1)
            in fadd rnd result2
                 (fmul rnd
                   (fadd rnd (fadd rnd (fmul rnd (Bptr 6) gu0) (fmul rnd (Bptr 7) gu1))
                      (fmul rnd (Bptr 8) gu2))
                   gv2)))
           result [0..<n2])
         result [0..<n1])
       0 [0..<n0]"

subsection \<open>The four concrete assemblers\<close>

text \<open>
  \<open>MassAssembler2D\<close> and \<open>MassAssembler3D\<close>: \<open>C k q f\<close> is \<open>C[k][q, f]\<close>, the value of basis
  function \<open>f\<close> of axis \<open>k\<close> at quadrature node \<open>q\<close>; \<open>geo_weights\<close> is indexed by the list of
  node indices and \<open>geo_weights_shape\<close> is its shape.
  \<open>StiffnessAssembler2D\<close> and \<open>StiffnessAssembler3D\<close>: \<open>C_derivs k f q m\<close> is \<open>C[k][f, q, m]\<close>
  (the field \<open>C\<close> of the stiffness classes), \<open>B nodes r c\<close> is \<open>B[nodes..., r, c]\<close>.
\<close>

record MassAssembler = BaseAssembler +
  C :: "nat \<Rightarrow> nat \<Rightarrow> nat \<Rightarrow> double"
  geo_weights_shape :: "nat list"
  geo_weights :: "nat list \<Rightarrow> double"

record StiffnessAssembler = BaseAssembler +
  C_derivs :: "nat \<Rightarrow> nat \<Rightarrow> nat \<Rightarrow> nat \<Rightarrow> double"
  B_shape :: "nat list"
  B :: "nat list \<Rightarrow> nat \<Rightarrow> nat \<Rightarrow> double"

text \<open>Assigning a signed value to a \<open>size_t\<close> (64 bits).\<close>

definition size_t_of_int :: "int \<Rightarrow> nat" where
  "size_t_of_int x = nat (x mod 2 ^ 64)"

text \<open>
  The extent of the slice \<open>sta:fin\<close> of an axis of extent \<open>ext\<close> (\<open>sta\<close>, \<open>fin\<close> unsigned):
  both ends are clipped to the extent.
\<close>

definition slice_len :: "nat \<Rightarrow> nat \<Rightarrow> nat \<Rightarrow> nat" where
  "slice_len sta fin ext = min fin ext - min sta ext"

text \<open>
  Passing an \<open>ssize_t\<close> (64 bits) for a parameter of type C \<open>int\<close> (32 bits) keeps the low
  32 bits, read as a signed number. A value fits when the conversion leaves it as it is.
\<close>

definition c_int :: "int \<Rightarrow> int" where
  "c_int x = (x + 2 ^ 31) mod 2 ^ 32 - 2 ^ 31"

definition fits_int :: "int \<Rightarrow> bool" where
  "fits_int x = (- (2 ^ 31) \<le> x \<and> x < 2 ^ 31)"

text \<open>
  The first statement of the loop over the axes in every \<open>assemble_impl\<close>:
  \<^verbatim>\<open>
  intv = intersect_intervals(
      make_intv(self.meshsupp[k][i[k],0], self.meshsupp[k][i[k],1]),
      make_intv(self.meshsupp[k][j[k],0], self.meshsupp[k][j[k],1]))
  \<close>
  The table holds \<open>ssize_t\<close> and \<open>make_intv\<close> takes C \<open>int\<close>: the four endpoints are
  narrowed. \<open>None\<close> where a row is read outside the table of axis \<open>k\<close>.
\<close>

definition axis_overlap ::
  "'a BaseAssembler_scheme \<Rightarrow> nat \<Rightarrow> nat list \<Rightarrow> nat list \<Rightarrow> IntInterval option" where
  "axis_overlap asm k i j =
     (if k < length (meshsupp asm) \<and> k < length i \<and> k < length j
         \<and> i ! k < length (meshsupp asm ! k) \<and> j ! k < length (meshsupp asm ! k)
      then (let ms = meshsupp asm ! k
            in Some (intersect_intervals
                      (make_intv (c_int (fst (ms ! (i ! k)))) (c_int (snd (ms ! (i ! k)))))
                      (make_intv (c_int (fst (ms ! (j ! k)))) (c_int (snd (ms ! (j ! k)))))))
      else None)"

text \<open>
  The four \<open>assemble_impl\<close> are written with the rounding \<open>rnd\<close> of the kernel they call as
  a parameter (\<open>..._assemble_impl_with\<close>); the methods of the code are their instances at
  \<open>round_to_double\<close>, defined after them.

  \<open>MassAssembler2D.assemble_impl\<close>, the loop \<open>for k in range(2)\<close> unrolled. The pointer
  \<open>values_i[k] = &self.C[k][g_sta[k], i[k]]\<close> into the column-major \<open>C[k]\<close> reads
  \<open>C[k][g_sta[k] + q, i[k]]\<close> at offset \<open>q\<close>.
\<close>

definition MassAssembler2D_assemble_impl_with ::
  "(real \<Rightarrow> double) \<Rightarrow> 'a MassAssembler_scheme \<Rightarrow> nat list \<Rightarrow> nat list \<Rightarrow> double option" where
  "MassAssembler2D_assemble_impl_with rnd asm i j =
     (case axis_overlap asm 0 i j of None \<Rightarrow> None
      | Some intv0 \<Rightarrow>
        if intv_a intv0 \<ge> intv_b intv0 then Some 0
        else (let g_sta0 = size_t_of_int (nqp asm * intv_a intv0);
                  g_end0 = size_t_of_int (nqp asm * intv_b intv0)
              in case axis_overlap asm 1 i j of None \<Rightarrow> None
                 | Some intv1 \<Rightarrow>
                   if intv_a intv1 \<ge> intv_b intv1 then Some 0
                   else (let g_sta1 = size_t_of_int (nqp asm * intv_a intv1);
                             g_end1 = size_t_of_int (nqp asm * intv_b intv1)
                         in Some (combine_mass_2d rnd
                              (slice_len g_sta0 g_end0 (geo_weights_shape asm ! 0))
                              (slice_len g_sta1 g_end1 (geo_weights_shape asm ! 1))
                              (\<lambda>q0 q1. geo_weights asm [g_sta0 + q0, g_sta1 + q1])
                              (\<lambda>q. C asm 0 (g_sta0 + q) (i ! 0))
                              (\<lambda>q. C asm 1 (g_sta1 + q) (i ! 1))
                              (\<lambda>q. C asm 0 (g_sta0 + q) (j ! 0))
                              (\<lambda>q. C asm 1 (g_sta1 + q) (j ! 1))))))"

text \<open>
  \<open>StiffnessAssembler2D.assemble_impl\<close>. The pointer
  \<open>values_i[k] = &self.C[k][i[k], g_sta[k], 0]\<close> into the row-major \<open>C[k]\<close> (last extent 2)
  reads \<open>C[k][i[k], g_sta[k] + m div 2, m mod 2]\<close> at offset \<open>m\<close>; the block of \<open>B\<close> at a node
  is row-major 2 x 2.
\<close>

definition StiffnessAssembler2D_assemble_impl_with ::
  "(real \<Rightarrow> double) \<Rightarrow> 'a StiffnessAssembler_scheme \<Rightarrow> nat list \<Rightarrow> nat list \<Rightarrow> double option" where
  "StiffnessAssembler2D_assemble_impl_with rnd asm i j =
     (case axis_overlap asm 0 i j of None \<Rightarrow> None
      | Some intv0 \<Rightarrow>
        if intv_a intv0 \<ge> intv_b intv0 then Some 0
        else (let g_sta0 = size_t_of_int (nqp asm * intv_a intv0);
                  g_end0 = size_t_of_int (nqp asm * intv_b intv0)
              in case axis_overlap asm 1 i j of None \<Rightarrow> None
                 | Some intv1 \<Rightarrow>
                   if intv_a intv1 \<ge> intv_b intv1 then Some 0
                   else (let g_sta1 = size_t_of_int (nqp asm * intv_a intv1);
                             g_end1 = size_t_of_int (nqp asm * intv_b intv1)
                         in Some (combine_stiff_2d rnd
                              (slice_len g_sta0 g_end0 (B_shape asm ! 0))
                              (slice_len g_sta1 g_end1 (B_shape asm ! 1))
                              (\<lambda>q0 q1 m. B asm [g_sta0 + q0, g_sta1 + q1] (m div 2) (m mod 2))
                              (\<lambda>m. C_derivs asm 0 (i ! 0) (g_sta0 + m div 2) (m mod 2))
                              (\<lambda>m. C_derivs asm 1 (i ! 1) (g_sta1 + m div 2) (m mod 2))
                              (\<lambda>m. C_derivs asm 0 (j ! 0) (g_sta0 + m div 2) (m mod 2))
                              (\<lambda>m. C_derivs asm 1 (j ! 1) (g_sta1 + m div 2) (m mod 2))))))"

text \<open>\<open>MassAssembler3D.assemble_impl\<close>, the loop \<open>for k in range(3)\<close> unrolled.\<close>

definition MassAssembler3D_assemble_impl_with ::
  "(real \<Rightarrow> double) \<Rightarrow> 'a MassAssembler_scheme \<Rightarrow> nat list \<Rightarrow> nat list \<Rightarrow> double option" where
  "MassAssembler3D_assemble_impl_with rnd asm i j =
     (case axis_overlap asm 0 i j of None \<Rightarrow> None
      | Some intv0 \<Rightarrow>
        if intv_a intv0 \<ge> intv_b intv0 then Some 0
        else (let g_sta0 = size_t_of_int (nqp asm * intv_a intv0);
                  g_end0 = size_t_of_int (nqp asm * intv_b intv0)
              in case axis_overlap asm 1 i j of None \<Rightarrow> None
                 | Some intv1 \<Rightarrow>
                   if intv_a intv1 \<ge> intv_b intv1 then Some 0
                   else (let g_sta1 = size_t_of_int (nqp asm * intv_a intv1);
                             g_end1 = size_t_of_int (nqp asm * intv_b intv1)
                         in case axis_overlap asm 2 i j of None \<Rightarrow> None
                            | Some intv2 \<Rightarrow>
                              if intv_a intv2 \<ge> intv_b intv2 then Some 0
                              else (let g_sta2 = size_t_of_int (nqp asm * intv_a intv2);
                                        g_end2 = size_t_of_int (nqp asm * intv_b intv2)
                                    in Some (combine_mass_3d rnd
                                         (slice_len g_sta0 g_end0 (geo_weights_shape asm ! 0))
                                         (slice_len g_sta1 g_end1 (geo_weights_shape asm ! 1))
                                         (slice_len g_sta2 g_end2 (geo_weights_shape asm ! 2))
                                         (\<lambda>q0 q1 q2. geo_weights asm [g_sta0 + q0, g_sta1 + q1, g_sta2 + q2])
                                         (\<lambda>q. C asm 0 (g_sta0 + q) (i ! 0))
                                         (\<lambda>q. C asm 1 (g_sta1 + q) (i ! 1))
                                         (\<lambda>q. C asm 2 (g_sta2 + q) (i ! 2))
                                         (\<lambda>q. C asm 0 (g_sta0 + q) (j ! 0))
                                         (\<lambda>q. C asm 1 (g_sta1 + q) (j ! 1))
                                         (\<lambda>q. C asm 2 (g_sta2 + q) (j ! 2)))))))"

text \<open>\<open>StiffnessAssembler3D.assemble_impl\<close>; the block of \<open>B\<close> at a node is row-major 3 x 3.\<close>

definition StiffnessAssembler3D_assemble_impl_with ::
  "(real \<Rightarrow> double) \<Rightarrow> 'a StiffnessAssembler_scheme \<Rightarrow> nat list \<Rightarrow> nat list \<Rightarrow> double option" where
  "StiffnessAssembler3D_assemble_impl_with rnd asm i j =
     (case axis_overlap asm 0 i j of None \<Rightarrow> None
      | Some intv0 \<Rightarrow>
        if intv_a intv0 \<ge> intv_b intv0 then Some 0
        else (let g_sta0 = size_t_of_int (nqp asm * intv_a intv0);
                  g_end0 = size_t_of_int (nqp asm * intv_b intv0)
              in case axis_overlap asm 1 i j of None \<Rightarrow> None
                 | Some intv1 \<Rightarrow>
                   if intv_a intv1 \<ge> intv_b intv1 then Some 0
                   else (let g_sta1 = size_t_of_int (nqp asm * intv_a intv1);
                             g_end1 = size_t_of_int (nqp asm * intv_b intv1)
                         in case axis_overlap asm 2 i j of None \<Rightarrow> None
                            | Some intv2 \<Rightarrow>
                              if intv_a intv2 \<ge> intv_b intv2 then Some 0
                              else (let g_sta2 = size_t_of_int (nqp asm * intv_a intv2);
                                        g_end2 = size_t_of_int (nqp asm * intv_b intv2)
                                    in Some (combine_stiff_3d rnd
                                         (slice_len g_sta0 g_end0 (B_shape asm ! 0))
                                         (slice_len g_sta1 g_end1 (B_shape asm ! 1))
                                         (slice_len g_sta2 g_end2 (B_shape asm ! 2))
                                         (\<lambda>q0 q1 q2 m. B asm [g_sta0 + q0, g_sta1 + q1, g_sta2 + q2] (m div 3) (m mod 3))
                                         (\<lambda>m. C_derivs asm 0 (i ! 0) (g_sta0 + m div 2) (m mod 2))
                                         (\<lambda>m. C_derivs asm 1 (i ! 1) (g_sta1 + m div 2) (m mod 2))
                                         (\<lambda>m. C_derivs asm 2 (i ! 2) (g_sta2 + m div 2) (m mod 2))
                                         (\<lambda>m. C_derivs asm 0 (j ! 0) (g_sta0 + m div 2) (m mod 2))
                                         (\<lambda>m. C_derivs asm 1 (j ! 1) (g_sta1 + m div 2) (m mod 2))
                                         (\<lambda>m. C_derivs asm 2 (j ! 2) (g_sta2 + m div 2) (m mod 2)))))))"

text \<open>The methods of the code: the kernels compute in doubles.\<close>

definition MassAssembler2D_assemble_impl ::
  "'a MassAssembler_scheme \<Rightarrow> nat list \<Rightarrow> nat list \<Rightarrow> double option" where
  "MassAssembler2D_assemble_impl asm i j =
     MassAssembler2D_assemble_impl_with round_to_double asm i j"

definition StiffnessAssembler2D_assemble_impl ::
  "'a StiffnessAssembler_scheme \<Rightarrow> nat list \<Rightarrow> nat list \<Rightarrow> double option" where
  "StiffnessAssembler2D_assemble_impl asm i j =
     StiffnessAssembler2D_assemble_impl_with round_to_double asm i j"

definition MassAssembler3D_assemble_impl ::
  "'a MassAssembler_scheme \<Rightarrow> nat list \<Rightarrow> nat list \<Rightarrow> double option" where
  "MassAssembler3D_assemble_impl asm i j =
     MassAssembler3D_assemble_impl_with round_to_double asm i j"

definition StiffnessAssembler3D_assemble_impl ::
  "'a StiffnessAssembler_scheme \<Rightarrow> nat list \<Rightarrow> nat list \<Rightarrow> double option" where
  "StiffnessAssembler3D_assemble_impl asm i j =
     StiffnessAssembler3D_assemble_impl_with round_to_double asm i j"

text \<open>
  What the theorems about \<open>assemble_impl\<close> assume of a pair of multi-indices: both are
  arrays of \<open>d\<close> components whose rows exist in the mesh-support tables. On axis \<open>k\<close> the
  supports of \<open>i\<close> and \<open>j\<close> are disjoint when the largest left endpoint is not below the
  smallest right endpoint. The endpoints of the support of \<open>i\<close> on axis \<open>k\<close> fit in a C
  \<open>int\<close>; so do all the entries of the tables of an assembler.
\<close>

definition endpoints_fit_int :: "'a BaseAssembler_scheme \<Rightarrow> nat \<Rightarrow> nat list \<Rightarrow> bool" where
  "endpoints_fit_int asm k i =
     (fits_int (fst (meshsupp asm ! k ! (i ! k))) \<and> fits_int (snd (meshsupp asm ! k ! (i ! k))))"

definition tables_fit_int :: "'a BaseAssembler_scheme \<Rightarrow> bool" where
  "tables_fit_int asm =
     list_all (list_all (\<lambda>r. fits_int (fst r) \<and> fits_int (snd r))) (meshsupp asm)"

definition rows_in_tables :: "'a BaseAssembler_scheme \<Rightarrow> nat \<Rightarrow> nat list \<Rightarrow> bool" where
  "rows_in_tables asm d i =
     (length i = d \<and> d \<le> length (meshsupp asm)
      \<and> (\<forall>k<d. i ! k < length (meshsupp asm ! k)))"

definition supports_disjoint_on_axis ::
  "'a BaseAssembler_scheme \<Rightarrow> nat \<Rightarrow> nat list \<Rightarrow> nat list \<Rightarrow> bool" where
  "supports_disjoint_on_axis asm k i j =
     (max (fst (meshsupp asm ! k ! (i ! k))) (fst (meshsupp asm ! k ! (j ! k)))
      \<ge> min (snd (meshsupp asm ! k ! (i ! k))) (snd (meshsupp asm ! k ! (j ! k))))"

text \<open>
  Two small assemblers for instances of the theorems: on every one of \<open>d\<close> axes two basis
  functions of degree 0 over two mesh elements (the supports \<open>[0,1)\<close> and \<open>[1,2)\<close>), one
  quadrature node per element, weight 1 at every node.
\<close>

definition example_mass :: "nat \<Rightarrow> MassAssembler" where
  "example_mass d =
     \<lparr>nqp = 1, ndofs = replicate d 2, meshsupp = replicate d [(0, 1), (1, 2)],
      C = (\<lambda>k q f. if q = f then 1 else 0),
      geo_weights_shape = replicate d 2,
      geo_weights = (\<lambda>q. 1)\<rparr>"

definition example_stiffness :: "nat \<Rightarrow> StiffnessAssembler" where
  "example_stiffness d =
     \<lparr>nqp = 1, ndofs = replicate d 2, meshsupp = replicate d [(0, 1), (1, 2)],
      C_derivs = (\<lambda>k f q m. if q = f \<and> m = 0 then 1 else 0),
      B_shape = replicate d 2,
      B = (\<lambda>q r c. if r = c then 1 else 0)\<rparr>"

text \<open>
  The tables of an assembler have the B-spline ordering. And an assembler whose table on
  axis 1 has sorted left endpoints only: function 0 of that axis spans the whole mesh.
\<close>

definition bspline_tables :: "'a BaseAssembler_scheme \<Rightarrow> bool" where
  "bspline_tables asm =
     list_all (\<lambda>ms. left_sorted ms \<and> right_sorted ms \<and> supports_nonempty ms) (meshsupp asm)"


text \<open>
  A mass assembler with a table entry beyond the range of a C \<open>int\<close>: on axis 0 the
  supports \<open>[0, 1)\<close> and \<open>[2\<^sup>3\<^sup>2, 2\<^sup>3\<^sup>2 + 1)\<close> of its two functions are disjoint.
\<close>

definition wide_mass :: MassAssembler where
  "wide_mass =
     \<lparr>nqp = 1, ndofs = [2, 1], meshsupp = [[(0, 1), (4294967296, 4294967297)], [(0, 1)]],
      C = (\<lambda>k q f. 1),
      geo_weights_shape = [1, 1],
      geo_weights = (\<lambda>q. 1)\<rparr>"

text \<open>
  A mass assembler of two functions per axis over one mesh element, one quadrature node,
  weight 1. At the node the functions of axis 0 have the values \<open>(2\<^sup>2\<^sup>7 + 3) / 2\<^sup>2\<^sup>8\<close> and
  \<open>7 / 8\<close>, those of axis 1 the values \<open>(2\<^sup>2\<^sup>7 + 1) / 2\<^sup>2\<^sup>8\<close> and 1; all four are doubles.
\<close>

definition rounding_mass :: MassAssembler where
  "rounding_mass =
     \<lparr>nqp = 1, ndofs = [2, 2], meshsupp = [[(0, 1), (0, 1)], [(0, 1), (0, 1)]],
      C = (\<lambda>k q f. if k = 0 then (if f = 0 then 134217731 / 268435456 else 7 / 8)
                    else (if f = 0 then 134217729 / 268435456 else 1)),
      geo_weights_shape = [1, 1],
      geo_weights = (\<lambda>q. 1)\<rparr>"

text \<open>
  \<open>assemble_impl\<close> returns \<open>0.0\<close> for every \<open>j\<close> outside the neighbour box of \<open>i\<close>.
\<close>

definition vanishes_outside :: "assemble_impl_fn \<Rightarrow> 'a BaseAssembler_scheme \<Rightarrow> bool" where
  "vanishes_outside impl asm =
     (\<forall>i j. valid_index (ndofs asm) i \<and> valid_index (ndofs asm) j \<and> \<not> in_neighbor_box asm i j
        \<longrightarrow> impl i j = Some 0)"

subsection \<open>Determinants, inverses and \<open>B * B\<^sup>T\<close>\<close>

text \<open>
  An array of square matrices over the quadrature grid is a function of the list of node
  indices, the row and the column; the assertions of \<open>determinants\<close> test the shape of the
  array that the geometry returns, not its values, and a function has no shape to test.
  \<open>determinants\<close> for 2 x 2 and 3 x 3 matrices:
\<close>

definition determinants_2x2 :: "(nat list \<Rightarrow> nat \<Rightarrow> nat \<Rightarrow> double) \<Rightarrow> nat list \<Rightarrow> double" where
  "determinants_2x2 X q = X q 0 0 * X q 1 1 - X q 0 1 * X q 1 0"

definition determinants_3x3 :: "(nat list \<Rightarrow> nat \<Rightarrow> nat \<Rightarrow> double) \<Rightarrow> nat list \<Rightarrow> double" where
  "determinants_3x3 X q =
     X q 0 0 * (X q 1 1 * X q 2 2 - X q 2 1 * X q 1 2)
     - X q 0 1 * (X q 1 0 * X q 2 2 - X q 1 2 * X q 2 0)
     + X q 0 2 * (X q 1 0 * X q 2 1 - X q 1 1 * X q 2 0)"

text \<open>
  \<open>det_and_inv_2x2\<close> and \<open>det_and_inv_3x3\<close> are compiled with \<open>cdivision(True)\<close>: they
  divide without a test and never raise. Where the determinant is 0 the C quotient is
  an infinity or NaN, which \<open>real\<close> does not have; HOL's quotient there is 0. Nothing
  below depends on the value of a quotient by 0.
\<close>

definition det_and_inv_2x2 ::
  "(nat list \<Rightarrow> nat \<Rightarrow> nat \<Rightarrow> double)
   \<Rightarrow> (nat list \<Rightarrow> double) \<times> (nat list \<Rightarrow> nat \<Rightarrow> nat \<Rightarrow> double)" where
  "det_and_inv_2x2 X =
     (\<lambda>q. X q 0 0 * X q 1 1 - X q 0 1 * X q 1 0,
      \<lambda>q r c.
        (let a = X q 0 0; b = X q 0 1; c' = X q 1 0; d = X q 1 1;
             det = a * d - b * c'
         in if r = 0 \<and> c = 0 then d / det
            else if r = 0 \<and> c = 1 then - b / det
            else if r = 1 \<and> c = 0 then - c' / det
            else a / det))"

definition det_and_inv_3x3 ::
  "(nat list \<Rightarrow> nat \<Rightarrow> nat \<Rightarrow> double)
   \<Rightarrow> (nat list \<Rightarrow> double) \<times> (nat list \<Rightarrow> nat \<Rightarrow> nat \<Rightarrow> double)" where
  "det_and_inv_3x3 X =
     (\<lambda>q. X q 0 0 * (X q 1 1 * X q 2 2 - X q 2 1 * X q 1 2)
          - X q 0 1 * (X q 1 0 * X q 2 2 - X q 1 2 * X q 2 0)
          + X q 0 2 * (X q 1 0 * X q 2 1 - X q 1 1 * X q 2 0),
      \<lambda>q r c.
        (let x00 = X q 0 0; x01 = X q 0 1; x02 = X q 0 2;
             x10 = X q 1 0; x11 = X q 1 1; x12 = X q 1 2;
             x20 = X q 2 0; x21 = X q 2 1; x22 = X q 2 2;
             det = x00 * (x11 * x22 - x21 * x12)
                 - x01 * (x10 * x22 - x12 * x20)
                 + x02 * (x10 * x21 - x11 * x20);
             invdet = 1 / det
         in if r = 0 \<and> c = 0 then (x11 * x22 - x21 * x12) * invdet
            else if r = 0 \<and> c = 1 then (x02 * x21 - x01 * x22) * invdet
            else if r = 0 \<and> c = 2 then (x01 * x12 - x02 * x11) * invdet
            else if r = 1 \<and> c = 0 then (x12 * x20 - x10 * x22) * invdet
            else if r = 1 \<and> c = 1 then (x00 * x22 - x02 * x20) * invdet
            else if r = 1 \<and> c = 2 then (x10 * x02 - x00 * x12) * invdet
            else if r = 2 \<and> c = 0 then (x10 * x21 - x20 * x11) * invdet
            else if r = 2 \<and> c = 1 then (x20 * x01 - x00 * x21) * invdet
            else (x00 * x11 - x10 * x01) * invdet))"

text \<open>
  \<open>matmatT_2x2\<close> and \<open>matmatT_3x3\<close>: \<open>X\<close> starts as zeros and
  \<open>X[.., j, l] += B[.., j, k] * B[.., l, k]\<close> runs over \<open>k\<close> in increasing order.
\<close>

definition matmatT_2x2 ::
  "(nat list \<Rightarrow> nat \<Rightarrow> nat \<Rightarrow> double) \<Rightarrow> nat list \<Rightarrow> nat \<Rightarrow> nat \<Rightarrow> double" where
  "matmatT_2x2 Bm q j l = foldl (\<lambda>x k. x + Bm q j k * Bm q l k) 0 [0..<2]"

definition matmatT_3x3 ::
  "(nat list \<Rightarrow> nat \<Rightarrow> nat \<Rightarrow> double) \<Rightarrow> nat list \<Rightarrow> nat \<Rightarrow> nat \<Rightarrow> double" where
  "matmatT_3x3 Bm q j l = foldl (\<lambda>x k. x + Bm q j k * Bm q l k) 0 [0..<3]"

subsection \<open>Construction of the assemblers\<close>

text \<open>
  What \<open>__init__\<close> reads of a knot vector (\<open>kv.p\<close>, \<open>kv.numdofs\<close>,
  \<open>kv.mesh_support_idx_all()\<close>) and of the geometry (\<open>geo.dim\<close>, \<open>geo.grid_jacobian\<close>). The
  spline basis, the quadrature rule and the geometry map are external collaborators: a
  quadrature rule is the number of its nodes and their weights, and the collaborators are
  parameters of the constructors, total functions that do not raise.
\<close>

datatype error = AssertionError string | IndexError

record KnotVector =
  kv_p :: nat
  kv_numdofs :: nat
  kv_mesh_support_idx_all :: meshsupp_table

record Quadrature =
  quad_nodes :: nat
  quad_weights :: "nat \<Rightarrow> double"

record Geometry =
  geo_dim :: nat
  grid_jacobian :: "Quadrature list \<Rightarrow> nat list \<Rightarrow> nat \<Rightarrow> nat \<Rightarrow> double"

record collaborators =
  make_iterated_quadrature :: "KnotVector \<Rightarrow> int \<Rightarrow> Quadrature"
  collocation :: "KnotVector \<Rightarrow> Quadrature \<Rightarrow> nat \<Rightarrow> nat \<Rightarrow> double"
  collocation_derivs :: "KnotVector \<Rightarrow> Quadrature \<Rightarrow> nat \<Rightarrow> nat \<Rightarrow> nat \<Rightarrow> double"

text \<open>\<open>self.nqp = max([kv.p for kv in kvs]) + 1\<close>; the degrees are not negative.\<close>

definition base_nqp :: "KnotVector list \<Rightarrow> int" where
  "base_nqp kvs = int (foldr max (map kv_p kvs) 0) + 1"

text \<open>
  \<open>BaseAssembler2D.base_init\<close> is declared \<open>cdef void\<close>: the \<open>AssertionError\<close> of its
  \<open>assert len(kvs) == 2\<close> cannot leave it. It is reported and dropped, \<open>base_init\<close>
  returns at once, and \<open>nqp\<close>, \<open>ndofs\<close> and \<open>meshsupp\<close> keep the values that the object was
  created with: 0, two zeros and no table. \<open>BaseAssembler3D.base_init\<close> is declared \<open>cdef\<close>
  with an object result, and its \<open>AssertionError\<close> is raised to \<open>__init__\<close>.
\<close>

definition base_init_2d :: "KnotVector list \<Rightarrow> int \<times> nat list \<times> meshsupp_table list" where
  "base_init_2d kvs =
     (if length kvs \<noteq> 2 then (0, [0, 0], [])
      else (base_nqp kvs, map kv_numdofs kvs, map kv_mesh_support_idx_all kvs))"

definition base_init_3d ::
  "KnotVector list \<Rightarrow> error + (int \<times> nat list \<times> meshsupp_table list)" where
  "base_init_3d kvs =
     (if length kvs \<noteq> 3 then Inl (AssertionError ''Assembler requires three knot vectors'')
      else Inr (base_nqp kvs, map kv_numdofs kvs, map kv_mesh_support_idx_all kvs))"

text \<open>
  \<open>MassAssembler2D.__init__\<close>: the assertion on the geometry, \<open>base_init\<close>, then the
  fields. \<open>kvs[k]\<close> and \<open>gaussgrid[k]\<close> for \<open>k\<close> in \<open>range(2)\<close> raise \<open>IndexError\<close> when there
  are fewer than two knot vectors; with more than two, the first two are used. There is
  no test of the determinant.
\<close>

definition MassAssembler2D_init ::
  "collaborators \<Rightarrow> KnotVector list \<Rightarrow> Geometry \<Rightarrow> error + MassAssembler" where
  "MassAssembler2D_init ext kvs geo =
     (if geo_dim geo \<noteq> 2 then Inl (AssertionError ''Geometry has wrong dimension'')
      else (let (nqp', ndofs', meshsupp') = base_init_2d kvs;
                gauss = map (\<lambda>kv. make_iterated_quadrature ext kv nqp') kvs
            in if length kvs < 2 then Inl IndexError
               else (let geo_jac = grid_jacobian geo gauss;
                         geo_det = (\<lambda>q. \<bar>determinants_2x2 geo_jac q\<bar>)
                     in Inr \<lparr>nqp = nqp',
                             ndofs = ndofs',
                             meshsupp = meshsupp',
                             C = (\<lambda>k. collocation ext (kvs ! k) (gauss ! k)),
                             geo_weights_shape = map quad_nodes (take 2 gauss),
                             geo_weights = (\<lambda>q. quad_weights (gauss ! 0) (q ! 0)
                                                 * quad_weights (gauss ! 1) (q ! 1)
                                                 * geo_det q)\<rparr>)))"

text \<open>\<open>MassAssembler3D.__init__\<close>: the assertion on the geometry, then that of \<open>base_init\<close>.\<close>

definition MassAssembler3D_init ::
  "collaborators \<Rightarrow> KnotVector list \<Rightarrow> Geometry \<Rightarrow> error + MassAssembler" where
  "MassAssembler3D_init ext kvs geo =
     (if geo_dim geo \<noteq> 3 then Inl (AssertionError ''Geometry has wrong dimension'')
      else (case base_init_3d kvs of Inl e \<Rightarrow> Inl e
        | Inr (nqp', ndofs', meshsupp') \<Rightarrow>
           (let gauss = map (\<lambda>kv. make_iterated_quadrature ext kv nqp') kvs;
                geo_jac = grid_jacobian geo gauss;
                geo_det = (\<lambda>q. \<bar>determinants_3x3 geo_jac q\<bar>)
            in Inr \<lparr>nqp = nqp',
                    ndofs = ndofs',
                    meshsupp = meshsupp',
                    C = (\<lambda>k. collocation ext (kvs ! k) (gauss ! k)),
                    geo_weights_shape = map quad_nodes gauss,
                    geo_weights = (\<lambda>q. quad_weights (gauss ! 0) (q ! 0)
                                        * quad_weights (gauss ! 1) (q ! 1)
                                        * quad_weights (gauss ! 2) (q ! 2) * geo_det q)\<rparr>)))"

text \<open>
  \<open>StiffnessAssembler2D.__init__\<close>: \<open>det_and_inv\<close> calls \<open>det_and_inv_2x2\<close> for 2 x 2
  matrices, and \<open>self.B = matmatT_2x2(geo_jacinv) * weights[:,:,None,None]\<close>.
\<close>

definition StiffnessAssembler2D_init ::
  "collaborators \<Rightarrow> KnotVector list \<Rightarrow> Geometry \<Rightarrow> error + StiffnessAssembler" where
  "StiffnessAssembler2D_init ext kvs geo =
     (if geo_dim geo \<noteq> 2 then Inl (AssertionError ''Geometry has wrong dimension'')
      else (let (nqp', ndofs', meshsupp') = base_init_2d kvs;
                gauss = map (\<lambda>kv. make_iterated_quadrature ext kv nqp') kvs
            in if length kvs < 2 then Inl IndexError
               else (let geo_jac = grid_jacobian geo gauss;
                         (geo_det, geo_jacinv) = det_and_inv_2x2 geo_jac;
                         weights = (\<lambda>q. quad_weights (gauss ! 0) (q ! 0)
                                        * quad_weights (gauss ! 1) (q ! 1) * \<bar>geo_det q\<bar>)
                     in Inr \<lparr>nqp = nqp',
                             ndofs = ndofs',
                             meshsupp = meshsupp',
                             C_derivs = (\<lambda>k. collocation_derivs ext (kvs ! k) (gauss ! k)),
                             B_shape = map quad_nodes (take 2 gauss),
                             B = (\<lambda>q r c. matmatT_2x2 geo_jacinv q r c * weights q)\<rparr>)))"

definition StiffnessAssembler3D_init ::
  "collaborators \<Rightarrow> KnotVector list \<Rightarrow> Geometry \<Rightarrow> error + StiffnessAssembler" where
  "StiffnessAssembler3D_init ext kvs geo =
     (if geo_dim geo \<noteq> 3 then Inl (AssertionError ''Geometry has wrong dimension'')
      else (case base_init_3d kvs of Inl e \<Rightarrow> Inl e
        | Inr (nqp', ndofs', meshsupp') \<Rightarrow>
           (let gauss = map (\<lambda>kv. make_iterated_quadrature ext kv nqp') kvs;
                geo_jac = grid_jacobian geo gauss;
                (geo_det, geo_jacinv) = det_and_inv_3x3 geo_jac;
                weights = (\<lambda>q. quad_weights (gauss ! 0) (q ! 0)
                               * quad_weights (gauss ! 1) (q ! 1)
                               * quad_weights (gauss ! 2) (q ! 2) * \<bar>geo_det q\<bar>)
            in Inr \<lparr>nqp = nqp',
                    ndofs = ndofs',
                    meshsupp = meshsupp',
                    C_derivs = (\<lambda>k. collocation_derivs ext (kvs ! k) (gauss ! k)),
                    B_shape = map quad_nodes gauss,
                    B = (\<lambda>q r c. matmatT_3x3 geo_jacinv q r c * weights q)\<rparr>)))"

text \<open>
  The same example as a constructor input: knot vectors of degree 0 with two dofs, a
  quadrature with two nodes of weight 1, and a geometry with the identity Jacobian at
  every node.
\<close>

definition example_kv :: KnotVector where
  "example_kv = \<lparr>kv_p = 0, kv_numdofs = 2, kv_mesh_support_idx_all = [(0, 1), (1, 2)]\<rparr>"

definition example_collaborators :: collaborators where
  "example_collaborators =
     \<lparr>make_iterated_quadrature = (\<lambda>kv n. \<lparr>quad_nodes = 2, quad_weights = (\<lambda>q. 1)\<rparr>),
      collocation = (\<lambda>kv g q f. if q = f then 1 else 0),
      collocation_derivs = (\<lambda>kv g f q m. if q = f \<and> m = 0 then 1 else 0)\<rparr>"

definition example_geometry :: "nat \<Rightarrow> Geometry" where
  "example_geometry d = \<lparr>geo_dim = d, grid_jacobian = (\<lambda>g q r c. if r = c then 1 else 0)\<rparr>"

text \<open>
  A constructor input whose basis functions overlap: knot vectors of degree 1 over one
  mesh element (two dofs, both supported on the element), a quadrature with \<open>nqp\<close> nodes
  of weight 1/2, the two hat functions with their values 3/4, 1/4 and derivatives -1, 1
  at the nodes, and a geometry whose Jacobian is upper triangular at every node.
\<close>

definition overlap_kv :: KnotVector where
  "overlap_kv = \<lparr>kv_p = 1, kv_numdofs = 2, kv_mesh_support_idx_all = [(0, 1), (0, 1)]\<rparr>"

definition overlap_collaborators :: collaborators where
  "overlap_collaborators =
     \<lparr>make_iterated_quadrature = (\<lambda>kv n. \<lparr>quad_nodes = nat n, quad_weights = (\<lambda>q. 1 / 2)\<rparr>),
      collocation = (\<lambda>kv g q f. if q = f then 3 / 4 else 1 / 4),
      collocation_derivs =
        (\<lambda>kv g f q m. if m = 0 then (if q = f then 3 / 4 else 1 / 4)
                       else (if f = 0 then - 1 else 1))\<rparr>"

definition sheared_geometry :: "nat \<Rightarrow> Geometry" where
  "sheared_geometry d =
     \<lparr>geo_dim = d, grid_jacobian = (\<lambda>g q r c. if r = c then 2 else if r < c then 1 else 0)\<rparr>"

text \<open>A geometry whose Jacobian is the zero matrix at every node.\<close>

definition singular_geometry :: "nat \<Rightarrow> Geometry" where
  "singular_geometry d = \<lparr>geo_dim = d, grid_jacobian = (\<lambda>g q r c. 0)\<rparr>"

text \<open>
  The Jacobian array that a constructor gets from the geometry, for the value \<open>n\<close> of
  \<open>self.nqp\<close> after \<open>base_init\<close>.
\<close>

definition constructor_jacobian ::
  "collaborators \<Rightarrow> KnotVector list \<Rightarrow> int \<Rightarrow> Geometry \<Rightarrow> nat list \<Rightarrow> nat \<Rightarrow> nat \<Rightarrow> double" where
  "constructor_jacobian ext kvs n geo =
     grid_jacobian geo (map (\<lambda>kv. make_iterated_quadrature ext kv n) kvs)"

text \<open>The assemblers that the constructors build from the overlapping input.\<close>

definition overlap_mass_3d :: MassAssembler where
  "overlap_mass_3d =
     projr (MassAssembler3D_init overlap_collaborators [overlap_kv, overlap_kv, overlap_kv]
              (sheared_geometry 3))"

definition overlap_stiffness_2d :: StiffnessAssembler where
  "overlap_stiffness_2d =
     projr (StiffnessAssembler2D_init overlap_collaborators [overlap_kv, overlap_kv]
              (sheared_geometry 2))"

definition overlap_stiffness_3d :: StiffnessAssembler where
  "overlap_stiffness_3d =
     projr (StiffnessAssembler3D_init overlap_collaborators [overlap_kv, overlap_kv, overlap_kv]
              (sheared_geometry 3))"

subsection \<open>The tile accumulator\<close>

text \<open>
  \<open>MatrixEntryAccumulator\<close>: \<open>idx\<close> (a signed cursor), \<open>num_indices\<close>, the buffer \<open>_result\<close>
  and the 16 \<open>unsigned\<close> (32-bit) values \<open>old_indices\<close>. \<open>np.empty(N)\<close> gives \<open>N\<close> doubles of
  no particular value: the constructor takes them as the list \<open>buf\<close>, of length \<open>N\<close>.
\<close>

type_synonym u32 = "32 word"

record MatrixEntryAccumulator =
  idx :: int
  num_indices :: int
  result_buf :: "double list"
  old_indices :: "u32 list"

definition MatrixEntryAccumulator_init :: "int \<Rightarrow> double list \<Rightarrow> error + MatrixEntryAccumulator" where
  "MatrixEntryAccumulator_init n buf =
     (if n \<le> 16
      then Inr \<lparr>idx = - 1, num_indices = n, result_buf = buf,
                old_indices = replicate 16 0xffffffff\<rparr>
      else Inl (AssertionError ''''))"

text \<open>
  \<open>index_changed(indices, i)\<close>, with \<open>row\<close> the row \<open>indices[i, :]\<close>:
  \<^verbatim>\<open>
  changed = False
  for k in range(self.num_indices):
      if indices[i, k] != self.old_indices[k]: changed = True; break
  if changed:
      for k in range(self.num_indices): self.old_indices[k] = indices[i, k]
  return changed
  \<close>
  Whether or not the tuple changed, every column below \<open>num_indices\<close> is read; a row
  with fewer columns is read out of bounds.
\<close>

definition index_changed ::
  "MatrixEntryAccumulator \<Rightarrow> u32 list \<Rightarrow> (bool \<times> MatrixEntryAccumulator) option" where
  "index_changed self row =
     (let n = nat (num_indices self) in
      if length row < n then None
      else (let changed = list_ex (\<lambda>k. row ! k \<noteq> old_indices self ! k) [0..<n]
            in if changed
               then Some (True, self\<lparr>old_indices := take n row @ drop n (old_indices self)\<rparr>)
               else Some (False, self)))"

text \<open>
  \<open>process(indices, values)\<close>, by recursion over the rows of \<open>indices\<close> with the values
  beside them:
  \<^verbatim>\<open>
  for i in range(M):
      if self.index_changed(indices, i):
          self.idx += 1
          self._result[self.idx] = values[i]
      else:
          self._result[self.idx] += values[i]
  \<close>
  A write outside \<open>_result\<close> and a read beyond the end of \<open>values\<close> are \<open>None\<close>.
\<close>

fun process ::
  "MatrixEntryAccumulator \<Rightarrow> u32 list list \<Rightarrow> double list \<Rightarrow> MatrixEntryAccumulator option" where
  "process self [] values = Some self"
| "process self (row # rows) [] = None"
| "process self (row # rows) (v # values) =
     (case index_changed self row of None \<Rightarrow> None
      | Some (changed, self') \<Rightarrow>
          if changed then
            (let k = idx self' + 1 in
             if 0 \<le> k \<and> k < int (length (result_buf self'))
             then process (self'\<lparr>idx := k, result_buf := (result_buf self')[nat k := v]\<rparr>) rows values
             else None)
          else
            (let k = idx self' in
             if 0 \<le> k \<and> k < int (length (result_buf self'))
             then process (self'\<lparr>result_buf := (result_buf self')[nat k := result_buf self' ! nat k + v]\<rparr>)
                    rows values
             else None))"

text \<open>The property \<open>result\<close>: \<open>self._result[:self.idx+1]\<close>.\<close>

definition result :: "MatrixEntryAccumulator \<Rightarrow> double list" where
  "result self = take (nat (idx self + 1)) (result_buf self)"

text \<open>
  The index tuple of a row is its first \<open>num_indices\<close> columns. The maximal runs of
  consecutive rows with equal tuples, each with its values in input order; the sum of a
  run in input order; the sentinel tuple.
\<close>

definition index_tuple :: "int \<Rightarrow> u32 list \<Rightarrow> u32 list" where
  "index_tuple n row = take (nat n) row"

fun runs :: "('k \<times> 'v) list \<Rightarrow> ('k \<times> 'v list) list" where
  "runs [] = []"
| "runs ((k, v) # xs) =
     (case runs xs of
        [] \<Rightarrow> [(k, [v])]
      | (k', vs) # rs \<Rightarrow> if k = k' then (k, v # vs) # rs else (k, [v]) # (k', vs) # rs)"

definition tuple_runs :: "int \<Rightarrow> u32 list list \<Rightarrow> double list \<Rightarrow> (u32 list \<times> double list) list" where
  "tuple_runs n rows values = runs (zip (map (index_tuple n) rows) values)"

fun run_sum :: "double list \<Rightarrow> double" where
  "run_sum [] = 0"
| "run_sum (v # vs) = foldl (+) v vs"

definition sentinel_tuple :: "int \<Rightarrow> u32 list" where
  "sentinel_tuple n = replicate (nat n) 0xffffffff"

section \<open>Properties\<close>

subsection \<open>The neighbour range\<close>

lemma scan_left_spec:
  assumes "- 1 \<le> j" "j < int (length ms)"
  shows "(scan_left ms i j minj = minj \<and> (j < 0 \<or> \<not> snd (ms ! nat j) > fst (ms ! nat i)))
       \<or> (0 \<le> scan_left ms i j minj \<and> scan_left ms i j minj \<le> j
           \<and> (\<forall>k. scan_left ms i j minj \<le> k \<and> k \<le> j \<longrightarrow> snd (ms ! nat k) > fst (ms ! nat i))
           \<and> (scan_left ms i j minj = 0
               \<or> \<not> snd (ms ! nat (scan_left ms i j minj - 1)) > fst (ms ! nat i)))"
  using assms
proof (induction ms i j minj rule: scan_left.induct)
  case (1 ms i j minj)
  show ?case
  proof (cases "j \<ge> 0 \<and> snd (ms ! nat j) > fst (ms ! nat i)")
    case False
    then show ?thesis by (subst scan_left.simps) auto
  next
    case True
    define r where "r = scan_left ms i (j - 1) j"
    have eq: "scan_left ms i j minj = r"
      unfolding r_def using True by (subst scan_left.simps) simp
    have ih: "(r = j \<and> (j - 1 < 0 \<or> \<not> snd (ms ! nat (j - 1)) > fst (ms ! nat i)))
       \<or> (0 \<le> r \<and> r \<le> j - 1
           \<and> (\<forall>k. r \<le> k \<and> k \<le> j - 1 \<longrightarrow> snd (ms ! nat k) > fst (ms ! nat i))
           \<and> (r = 0 \<or> \<not> snd (ms ! nat (r - 1)) > fst (ms ! nat i)))"
      unfolding r_def using "1.IH"[OF True] "1.prems" True by simp
    from ih show ?thesis
    proof
      assume a: "r = j \<and> (j - 1 < 0 \<or> \<not> snd (ms ! nat (j - 1)) > fst (ms ! nat i))"
      have "\<forall>k. r \<le> k \<and> k \<le> j \<longrightarrow> snd (ms ! nat k) > fst (ms ! nat i)"
        using a True by auto
      moreover have "r = 0 \<or> \<not> snd (ms ! nat (r - 1)) > fst (ms ! nat i)"
        using a True by auto
      ultimately show ?thesis unfolding eq using a True by simp
    next
      assume b: "0 \<le> r \<and> r \<le> j - 1
           \<and> (\<forall>k. r \<le> k \<and> k \<le> j - 1 \<longrightarrow> snd (ms ! nat k) > fst (ms ! nat i))
           \<and> (r = 0 \<or> \<not> snd (ms ! nat (r - 1)) > fst (ms ! nat i))"
      have "\<forall>k. r \<le> k \<and> k \<le> j \<longrightarrow> snd (ms ! nat k) > fst (ms ! nat i)"
      proof (intro allI impI)
        fix k assume "r \<le> k \<and> k \<le> j"
        then have "k \<le> j - 1 \<or> k = j" by auto
        then show "snd (ms ! nat k) > fst (ms ! nat i)" using b True \<open>r \<le> k \<and> k \<le> j\<close> by auto
      qed
      then show ?thesis unfolding eq using b by auto
    qed
  qed
qed


lemma scan_right_spec:
  assumes "0 \<le> j" "j \<le> n" "n = int (length ms)"
  shows "(scan_right ms i n j maxj = maxj \<and> (j \<ge> n \<or> \<not> fst (ms ! nat j) < snd (ms ! nat i)))
       \<or> (j \<le> scan_right ms i n j maxj \<and> scan_right ms i n j maxj < n
           \<and> (\<forall>k. j \<le> k \<and> k \<le> scan_right ms i n j maxj \<longrightarrow> fst (ms ! nat k) < snd (ms ! nat i))
           \<and> (scan_right ms i n j maxj = n - 1
               \<or> \<not> fst (ms ! nat (scan_right ms i n j maxj + 1)) < snd (ms ! nat i)))"
  using assms
proof (induction ms i n j maxj rule: scan_right.induct)
  case (1 ms i n j maxj)
  show ?case
  proof (cases "j < n \<and> fst (ms ! nat j) < snd (ms ! nat i)")
    case False
    then show ?thesis by (subst scan_right.simps) auto
  next
    case True
    define r where "r = scan_right ms i n (j + 1) j"
    have eq: "scan_right ms i n j maxj = r"
      unfolding r_def using True by (subst scan_right.simps) simp
    have ih: "(r = j \<and> (j + 1 \<ge> n \<or> \<not> fst (ms ! nat (j + 1)) < snd (ms ! nat i)))
       \<or> (j + 1 \<le> r \<and> r < n
           \<and> (\<forall>k. j + 1 \<le> k \<and> k \<le> r \<longrightarrow> fst (ms ! nat k) < snd (ms ! nat i))
           \<and> (r = n - 1 \<or> \<not> fst (ms ! nat (r + 1)) < snd (ms ! nat i)))"
      unfolding r_def using "1.IH"[OF True] "1.prems" True by simp
    from ih show ?thesis
    proof
      assume a: "r = j \<and> (j + 1 \<ge> n \<or> \<not> fst (ms ! nat (j + 1)) < snd (ms ! nat i))"
      have "\<forall>k. j \<le> k \<and> k \<le> r \<longrightarrow> fst (ms ! nat k) < snd (ms ! nat i)"
        using a True by auto
      moreover have "r = n - 1 \<or> \<not> fst (ms ! nat (r + 1)) < snd (ms ! nat i)"
        using a True by auto
      ultimately show ?thesis unfolding eq using a True by simp
    next
      assume b: "j + 1 \<le> r \<and> r < n
           \<and> (\<forall>k. j + 1 \<le> k \<and> k \<le> r \<longrightarrow> fst (ms ! nat k) < snd (ms ! nat i))
           \<and> (r = n - 1 \<or> \<not> fst (ms ! nat (r + 1)) < snd (ms ! nat i))"
      have "\<forall>k. j \<le> k \<and> k \<le> r \<longrightarrow> fst (ms ! nat k) < snd (ms ! nat i)"
      proof (intro allI impI)
        fix k assume "j \<le> k \<and> k \<le> r"
        then have "j + 1 \<le> k \<or> k = j" by auto
        then show "fst (ms ! nat k) < snd (ms ! nat i)" using b True \<open>j \<le> k \<and> k \<le> r\<close> by auto
      qed
      then show ?thesis unfolding eq using b by auto
    qed
  qed
qed

lemma scan_left_range:
  assumes "0 \<le> i" "i < int (length ms)"
  shows "0 \<le> scan_left ms i i i \<and> scan_left ms i i i \<le> i"
  using scan_left_spec[of i ms i i] assms by auto

lemma scan_right_range:
  assumes "0 \<le> i" "i < int (length ms)"
  shows "i \<le> scan_right ms i (int (length ms)) (i + 1) i
       \<and> scan_right ms i (int (length ms)) (i + 1) i < int (length ms)"
  using scan_right_spec[of "i + 1" "int (length ms)" ms i i] assms by auto

lemma find_joint_bounds:
  assumes "i < length ms"
  shows "\<exists>intv. find_joint_support_functions ms (int i) = Some intv
           \<and> 0 \<le> intv_a intv \<and> intv_a intv \<le> int i
           \<and> int i < intv_b intv \<and> intv_b intv \<le> int (length ms)"
  using scan_left_range[of "int i" ms] scan_right_range[of "int i" ms] assms
  by (simp add: find_joint_support_functions_def make_intv_def Let_def)

lemma filter_range:
  "hi \<le> n \<Longrightarrow> filter (\<lambda>j. lo \<le> j \<and> j < hi) [0..<n] = [lo..<hi]"
proof (induction n arbitrary: hi)
  case 0
  then show ?case by simp
next
  case (Suc n)
  show ?case
  proof (cases "hi \<le> n")
    case True
    with Suc.IH show ?thesis by simp
  next
    case False
    with Suc.prems have hi: "hi = Suc n" by simp
    have "filter (\<lambda>j. lo \<le> j \<and> j < hi) [0..<n] = filter (\<lambda>j. lo \<le> j \<and> j < n) [0..<n]"
      by (rule filter_cong) (auto simp: hi)
    also have "\<dots> = [lo..<n]" using Suc.IH[of n] by simp
    finally show ?thesis using hi by (cases "lo \<le> n") auto
  qed
qed

lemma find_joint_exact:
  assumes ls: "left_sorted ms" and rs: "right_sorted ms"
    and nei: "fst (ms ! i) < snd (ms ! i)" and i: "i < length ms"
  shows "\<exists>intv. find_joint_support_functions ms (int i) = Some intv
           \<and> 0 \<le> intv_a intv \<and> intv_b intv \<le> int (length ms)
           \<and> (\<forall>j<length ms. supports_overlap (ms ! j) (ms ! i)
                 \<longleftrightarrow> (intv_a intv \<le> int j \<and> int j < intv_b intv))"
proof -
  define n where "n = int (length ms)"
  define lo where "lo = scan_left ms (int i) (int i) (int i)"
  define hi where "hi = scan_right ms (int i) n (int i + 1) (int i)"
  have fj: "find_joint_support_functions ms (int i) = Some (make_intv lo (hi + 1))"
    using i by (simp add: find_joint_support_functions_def Let_def lo_def hi_def n_def)
  have L: "0 \<le> lo \<and> lo \<le> int i
           \<and> (\<forall>k. lo \<le> k \<and> k \<le> int i \<longrightarrow> snd (ms ! nat k) > fst (ms ! i))
           \<and> (lo = 0 \<or> \<not> snd (ms ! nat (lo - 1)) > fst (ms ! i))"
    using scan_left_spec[of "int i" ms "int i" "int i"] i nei unfolding lo_def by auto
  have R: "int i \<le> hi \<and> hi < n
           \<and> (\<forall>k. int i + 1 \<le> k \<and> k \<le> hi \<longrightarrow> fst (ms ! nat k) < snd (ms ! i))
           \<and> (hi = n - 1 \<or> \<not> fst (ms ! nat (hi + 1)) < snd (ms ! i))"
    using scan_right_spec[of "int i + 1" n ms "int i" "int i"] i unfolding hi_def n_def by auto
  have ov: "supports_overlap (ms ! j) (ms ! i) \<longleftrightarrow> (lo \<le> int j \<and> int j < hi + 1)"
    if j: "j < length ms" for j
  proof -
    have ovdef: "supports_overlap (ms ! j) (ms ! i)
        \<longleftrightarrow> max (fst (ms ! j)) (fst (ms ! i)) < min (snd (ms ! j)) (snd (ms ! i))"
      by (simp add: supports_overlap_def intersect_intervals_def make_intv_def Let_def not_le)
    consider (below) "int j < lo" | (left) "lo \<le> int j" "j \<le> i" | (right) "i < j" "int j \<le> hi"
      | (above) "hi < int j"
      using L R by linarith
    then show ?thesis
    proof cases
      case below
      then have lo0: "lo \<noteq> 0" by simp
      then have stop: "snd (ms ! nat (lo - 1)) \<le> fst (ms ! i)" using L by auto
      have "j \<le> nat (lo - 1)" using below by simp
      moreover have "nat (lo - 1) < length ms" using L i by linarith
      ultimately have "snd (ms ! j) \<le> snd (ms ! nat (lo - 1))"
        using rs j by (simp add: right_sorted_def)
      then have "snd (ms ! j) \<le> fst (ms ! i)" using stop by simp
      then show ?thesis using below unfolding ovdef by auto
    next
      case left
      have "\<forall>k. lo \<le> k \<and> k \<le> int i \<longrightarrow> snd (ms ! nat k) > fst (ms ! i)" using L by blast
      then have "snd (ms ! nat (int j)) > fst (ms ! i)" using left by (elim allE[of _ "int j"]) simp
      then have a: "snd (ms ! j) > fst (ms ! i)" by simp
      have b: "fst (ms ! j) \<le> fst (ms ! i)" using ls left i j by (simp add: left_sorted_def)
      show ?thesis using a b nei left R unfolding ovdef by auto
    next
      case right
      have "\<forall>k. int i + 1 \<le> k \<and> k \<le> hi \<longrightarrow> fst (ms ! nat k) < snd (ms ! i)" using R by blast
      then have "fst (ms ! nat (int j)) < snd (ms ! i)" using right by (elim allE[of _ "int j"]) simp
      then have a: "fst (ms ! j) < snd (ms ! i)" by simp
      have b: "fst (ms ! i) \<le> fst (ms ! j)" using ls right i j by (simp add: left_sorted_def)
      have "snd (ms ! i) \<le> snd (ms ! j)" using rs right i j by (simp add: right_sorted_def)
      then have nej: "fst (ms ! j) < snd (ms ! j)" using a by simp
      show ?thesis using a b nej right L unfolding ovdef by auto
    next
      case above
      then have hn: "hi \<noteq> n - 1" using j by (simp add: n_def)
      then have stop: "snd (ms ! i) \<le> fst (ms ! nat (hi + 1))" using R by auto
      have "nat (hi + 1) \<le> j" using above by simp
      moreover have "nat (hi + 1) < length ms" using above j by linarith
      ultimately have "fst (ms ! nat (hi + 1)) \<le> fst (ms ! j)"
        using ls j by (simp add: left_sorted_def)
      then have "snd (ms ! i) \<le> fst (ms ! j)" using stop by simp
      then show ?thesis using above unfolding ovdef by auto
    qed
  qed
  show ?thesis
    using fj L R ov by (simp add: make_intv_def n_def)
qed

lemma those_find_joint:
  assumes "list_all2 (\<lambda>k ms. k < length ms) i mss"
  shows "\<exists>intvs. those (map2 (\<lambda>ms ik. find_joint_support_functions ms (int ik)) mss i) = Some intvs
           \<and> list_all2 (\<lambda>intv k. 0 \<le> intv_a intv \<and> intv_a intv \<le> int k \<and> int k < intv_b intv) intvs i
           \<and> list_all2 (\<lambda>intv ms. intv_b intv \<le> int (length ms)) intvs mss"
  using assms
proof (induction rule: list_all2_induct)
  case Nil
  then show ?case by simp
next
  case (Cons k i ms mss)
  from find_joint_bounds[OF Cons.hyps(1)] obtain intv where
    v: "find_joint_support_functions ms (int k) = Some intv"
       "0 \<le> intv_a intv" "intv_a intv \<le> int k" "int k < intv_b intv"
       "intv_b intv \<le> int (length ms)" by blast
  from Cons.IH obtain intvs where
    vs: "those (map2 (\<lambda>ms ik. find_joint_support_functions ms (int ik)) mss i) = Some intvs"
        "list_all2 (\<lambda>intv k. 0 \<le> intv_a intv \<and> intv_a intv \<le> int k \<and> int k < intv_b intv) intvs i"
        "list_all2 (\<lambda>intv ms. intv_b intv \<le> int (length ms)) intvs mss" by blast
  show ?case using v vs by simp
qed

lemma neighbor_ranges_in_box:
  assumes "list_all2 (\<lambda>k ms. k < length ms) i mss"
  shows "\<exists>ns ne. neighbor_ranges mss i = Some (ns, ne) \<and> in_box ns ne i
           \<and> list_all2 (\<lambda>e ms. e \<le> length ms) ne mss"
proof -
  from those_find_joint[OF assms] obtain intvs where
    vs: "those (map2 (\<lambda>ms ik. find_joint_support_functions ms (int ik)) mss i) = Some intvs"
        "list_all2 (\<lambda>intv k. 0 \<le> intv_a intv \<and> intv_a intv \<le> int k \<and> int k < intv_b intv) intvs i"
        "list_all2 (\<lambda>intv ms. intv_b intv \<le> int (length ms)) intvs mss" by blast
  have a: "list_all2 (\<lambda>s k. s \<le> k) (map (\<lambda>intv. nat (intv_a intv)) intvs) i"
    using vs(2) by (simp add: list_all2_map1) (erule list_all2_mono, linarith)
  have b: "list_all2 (\<lambda>k e. k < e) i (map (\<lambda>intv. nat (intv_b intv)) intvs)"
    using vs(2) by (simp add: list_all2_map2 list_all2_conv_all_nth zless_nat_eq_int_zless)
  have c: "list_all2 (\<lambda>e ms. e \<le> length ms) (map (\<lambda>intv. nat (intv_b intv)) intvs) mss"
    using vs(3) by (simp add: list_all2_map1) (erule list_all2_mono, linarith)
  show ?thesis using vs(1) a b c by (simp add: neighbor_ranges_def in_box_def)
qed

lemma wf_valid_in_tables:
  assumes "assembler_wf asm" "valid_index (ndofs asm) i"
  shows "list_all2 (\<lambda>k ms. k < length ms) i (meshsupp asm)"
proof -
  have "list_all2 (\<lambda>k n. k < n) i (ndofs asm)" using assms(2) by (simp add: valid_index_def)
  moreover have "list_all2 (\<lambda>n ms. 0 < n \<and> length ms = n) (ndofs asm) (meshsupp asm)"
    using assms(1) by (simp add: assembler_wf_def)
  ultimately show ?thesis
    by (auto simp: list_all2_conv_all_nth)
qed

text \<open>
  C3, the claim as stated fails. With only the left endpoints sorted, function 0 of the
  first table below overlaps function 2, but the range returned for function 2 is
  \<open>[2, 3)\<close>. And for a function whose own support is empty, as in the second table, the
  range returned still contains the function, which overlaps nothing.
\<close>

theorem C3_left_sorted_counterexample:
  "(left_sorted [(0, 5), (1, 2), (3, 4)]
    \<and> supports_nonempty [(0, 5), (1, 2), (3, 4)]
    \<and> find_joint_support_functions [(0, 5), (1, 2), (3, 4)] 2 = Some (make_intv 2 3)
    \<and> supports_overlap ([(0, 5), (1, 2), (3, 4)] ! 0) ([(0, 5), (1, 2), (3, 4)] ! 2)
    \<and> brute_force_neighbors [(0, 5), (1, 2), (3, 4)] 2 = [0, 2])
   \<and> (left_sorted [(0, 0)] \<and> right_sorted [(0, 0)]
      \<and> find_joint_support_functions [(0, 0)] 0 = Some (make_intv 0 1)
      \<and> brute_force_neighbors [(0, 0)] 0 = [])"
proof -
  have "left_sorted [(0, 5), (1, 2), (3, 4)]"
    by (simp add: left_sorted_def less_Suc_eq numeral_3_eq_3 nth_Cons')
  moreover have "supports_nonempty [(0, 5), (1, 2), (3, 4)]"
    by (simp add: supports_nonempty_def less_Suc_eq numeral_3_eq_3 nth_Cons')
  moreover have "find_joint_support_functions [(0, 5), (1, 2), (3, 4)] 2 = Some (make_intv 2 3)"
    by (simp add: find_joint_support_functions_def scan_left.simps scan_right.simps)
  moreover have "supports_overlap ([(0, 5), (1, 2), (3, 4)] ! 0) ([(0, 5), (1, 2), (3, 4)] ! 2)"
    by (simp add: supports_overlap_def intersect_intervals_def make_intv_def)
  moreover have "brute_force_neighbors [(0, 5), (1, 2), (3, 4)] 2 = [0, 2]"
    by (simp add: brute_force_neighbors_def supports_overlap_def intersect_intervals_def
        make_intv_def upt_rec)
  moreover have "left_sorted [(0, 0)]" "right_sorted [(0, 0)]"
    by (simp_all add: left_sorted_def right_sorted_def)
  moreover have "find_joint_support_functions [(0, 0)] 0 = Some (make_intv 0 1)"
    by (simp add: find_joint_support_functions_def scan_left.simps scan_right.simps)
  moreover have "brute_force_neighbors [(0, 0)] 0 = []"
    by (simp add: brute_force_neighbors_def supports_overlap_def intersect_intervals_def
        make_intv_def)
  ultimately show ?thesis by simp
qed

text \<open>
  C3, as amended: for a table in which both the left and the right endpoints are
  non-decreasing, and every function index \<open>i\<close> of the table whose own support is not empty,
  \<open>find_joint_support_functions\<close> returns the interval \<open>[lo, hi)\<close> of exactly the indices
  that the brute-force scan finds: an index of the table overlaps the support of \<open>i\<close> if
  and only if it lies in \<open>[lo, hi)\<close>. Tables of one element, tables of pairwise disjoint
  supports and tables in which other functions have an empty support are included.
\<close>

theorem C3_neighbor_range_matches_brute_force:
  assumes "left_sorted ms" "right_sorted ms" "fst (ms ! i) < snd (ms ! i)" "i < length ms"
  shows "\<exists>intv. find_joint_support_functions ms (int i) = Some intv
           \<and> 0 \<le> intv_a intv \<and> intv_b intv \<le> int (length ms)
           \<and> brute_force_neighbors ms i = [nat (intv_a intv)..<nat (intv_b intv)]
           \<and> (\<forall>j<length ms. supports_overlap (ms ! j) (ms ! i)
                 \<longleftrightarrow> (intv_a intv \<le> int j \<and> int j < intv_b intv))"
proof -
  from find_joint_exact[OF assms] obtain intv where
    v: "find_joint_support_functions ms (int i) = Some intv"
       "0 \<le> intv_a intv" "intv_b intv \<le> int (length ms)"
       "\<forall>j<length ms. supports_overlap (ms ! j) (ms ! i)
            \<longleftrightarrow> (intv_a intv \<le> int j \<and> int j < intv_b intv)" by blast
  have "brute_force_neighbors ms i
        = filter (\<lambda>j. nat (intv_a intv) \<le> j \<and> j < nat (intv_b intv)) [0..<length ms]"
    unfolding brute_force_neighbors_def
    by (rule filter_cong[OF refl]) (use v in \<open>auto simp: zless_nat_eq_int_zless\<close>)
  also have "\<dots> = [nat (intv_a intv)..<nat (intv_b intv)]"
    by (rule filter_range) (use v in linarith)
  finally show ?thesis using v by blast
qed

theorem C3_neighbor_range_witness:
  "left_sorted [(0, 2), (2, 2), (2, 3)] \<and> right_sorted [(0, 2), (2, 2), (2, 3)]
   \<and> fst (([(0, 2), (2, 2), (2, 3)] :: meshsupp_table) ! 0) < snd ([(0, 2), (2, 2), (2, 3)] ! 0)
   \<and> (0 :: nat) < length ([(0, 2), (2, 2), (2, 3)] :: meshsupp_table)
   \<and> \<not> supports_nonempty [(0, 2), (2, 2), (2, 3)]
   \<and> (\<exists>intv. find_joint_support_functions [(0, 2), (2, 2), (2, 3)] (int 0) = Some intv
           \<and> 0 \<le> intv_a intv \<and> intv_b intv \<le> int (length ([(0, 2), (2, 2), (2, 3)] :: meshsupp_table))
           \<and> brute_force_neighbors [(0, 2), (2, 2), (2, 3)] 0 = [nat (intv_a intv)..<nat (intv_b intv)]
           \<and> (\<forall>j<length ([(0, 2), (2, 2), (2, 3)] :: meshsupp_table).
                 supports_overlap ([(0, 2), (2, 2), (2, 3)] ! j) ([(0, 2), (2, 2), (2, 3)] ! 0)
                 \<longleftrightarrow> (intv_a intv \<le> int j \<and> int j < intv_b intv)))"
proof -
  have h1: "left_sorted [(0, 2), (2, 2), (2, 3)]"
    by (simp add: left_sorted_def less_Suc_eq numeral_3_eq_3 nth_Cons')
  have h2: "right_sorted [(0, 2), (2, 2), (2, 3)]"
    by (simp add: right_sorted_def less_Suc_eq numeral_3_eq_3 nth_Cons')
  have h3: "fst (([(0, 2), (2, 2), (2, 3)] :: meshsupp_table) ! 0) < snd ([(0, 2), (2, 2), (2, 3)] ! 0)" by simp
  have h4: "(0 :: nat) < length ([(0, 2), (2, 2), (2, 3)] :: meshsupp_table)" by simp
  have h5: "\<not> supports_nonempty [(0, 2), (2, 2), (2, 3)]"
    by (simp add: supports_nonempty_def less_Suc_eq numeral_3_eq_3 nth_Cons')
  show ?thesis
    by (intro conjI h1 h2 h3 h4 h5 C3_neighbor_range_matches_brute_force[OF h1 h2 h3 h4])
qed

text \<open>
  C9: for every function index \<open>i\<close> of a table (whether or not its support is empty),
  the range that \<open>find_joint_support_functions\<close> returns contains \<open>i\<close>, so it is not empty;
  and for every multi-index inside the dof ranges of an assembler, the neighbour range of
  every axis contains the component of the multi-index, so the loop over \<open>j\<close> in
  \<open>generic_assemble\<close> never starts on an empty range.
\<close>

theorem C9_neighbor_range_contains_i:
  "(i < length ms \<longrightarrow>
      (\<exists>intv. find_joint_support_functions ms (int i) = Some intv
         \<and> intv_a intv \<le> int i \<and> int i < intv_b intv))
   \<and> (assembler_wf asm \<and> valid_index (ndofs asm) mi \<longrightarrow>
      (\<exists>ns ne. neighbor_ranges (meshsupp asm) mi = Some (ns, ne)
         \<and> list_all2 (\<lambda>s k. s \<le> k) ns mi \<and> list_all2 (\<lambda>k e. k < e) mi ne))"
proof (intro conjI impI)
  assume "i < length ms"
  from find_joint_bounds[OF this]
  show "\<exists>intv. find_joint_support_functions ms (int i) = Some intv
         \<and> intv_a intv \<le> int i \<and> int i < intv_b intv" by blast
next
  assume "assembler_wf asm \<and> valid_index (ndofs asm) mi"
  then have "list_all2 (\<lambda>k ms. k < length ms) mi (meshsupp asm)"
    by (simp add: wf_valid_in_tables)
  from neighbor_ranges_in_box[OF this]
  show "\<exists>ns ne. neighbor_ranges (meshsupp asm) mi = Some (ns, ne)
         \<and> list_all2 (\<lambda>s k. s \<le> k) ns mi \<and> list_all2 (\<lambda>k e. k < e) mi ne"
    by (auto simp: in_box_def)
qed

theorem C9_neighbor_range_witness:
  "(1 :: nat) < length ([(0, 1), (0, 0)] :: meshsupp_table)
   \<and> (\<exists>intv. find_joint_support_functions [(0, 1), (0, 0)] (int 1) = Some intv
         \<and> intv_a intv \<le> int 1 \<and> int 1 < intv_b intv)
   \<and> assembler_wf \<lparr>nqp = 1, ndofs = [2, 1], meshsupp = [[(0, 1), (0, 0)], [(0, 1)]]\<rparr>
   \<and> valid_index (ndofs \<lparr>nqp = 1, ndofs = [2, 1], meshsupp = [[(0, 1), (0, 0)], [(0, 1)]]\<rparr>) [1, 0]
   \<and> (\<exists>ns ne. neighbor_ranges
                 (meshsupp \<lparr>nqp = 1, ndofs = [2, 1], meshsupp = [[(0, 1), (0, 0)], [(0, 1)]]\<rparr>) [1, 0]
               = Some (ns, ne)
         \<and> list_all2 (\<lambda>s k. s \<le> k) ns [1, 0] \<and> list_all2 (\<lambda>k e. k < e) [1, 0] ne)"
proof -
  have h1: "(1 :: nat) < length ([(0, 1), (0, 0)] :: meshsupp_table)" by simp
  have h2: "assembler_wf \<lparr>nqp = 1, ndofs = [2, 1], meshsupp = [[(0, 1), (0, 0)], [(0, 1)]]\<rparr>"
    by (simp add: assembler_wf_def)
  have h3: "valid_index (ndofs \<lparr>nqp = 1, ndofs = [2, 1], meshsupp = [[(0, 1), (0, 0)], [(0, 1)]]\<rparr>) [1, 0]"
    by (simp add: valid_index_def)
  note inst = C9_neighbor_range_contains_i[of 1 "[(0, 1), (0, 0)]"
        "\<lparr>nqp = 1, ndofs = [2, 1], meshsupp = [[(0, 1), (0, 0)], [(0, 1)]]\<rparr>" "[1, 0]"]
  show ?thesis
    by (intro conjI h1 h2 h3 inst[THEN conjunct1, rule_format, OF h1]
        inst[THEN conjunct2, rule_format, OF conjI[OF h2 h3]])
qed

lemma concat_chunks_upt:
  "concat (map (\<lambda>k. [min (k * s) n..<min (k * s + s) n]) [0..<m]) = [0..<min (m * s) n]"
proof (induction m)
  case 0
  then show ?case by simp
next
  case (Suc m)
  have "[0..<min (m * s) n] @ [min (m * s) n..<min (m * s + s) n] = [0..<min (m * s + s) n]"
    by (metis le_add1 min.mono order_refl upt_add_eq_append zero_le le_Suc_ex)
  then show ?case using Suc by (simp add: add.commute)
qed

lemma chunk_count_le:
  assumes "0 < K"
  shows "(n + (n div K + 1) - 1) div (n div K + 1) \<le> (K :: nat)"
proof -
  define s where "s = n div K + 1"
  have "n < K * s"
    unfolding s_def using assms
    by (metis Suc_eq_plus1 dividend_less_times_div mult.commute mult_Suc_right add.commute)
  then have "n + s - 1 < K * s + s" by simp
  then have "n + s - 1 < (K + 1) * s" by (simp add: algebra_simps)
  then have "(n + s - 1) div s < K + 1"
    by (simp add: less_mult_imp_div_less)
  then show ?thesis unfolding s_def by simp
qed

lemma chunk_tasks_eq:
  assumes "1 < W"
  shows "chunk_tasks (range_it n) (4 * W)
         = Some (map (\<lambda>k. \<lparr>range_start = min (k * (n div nat (4 * W) + 1)) n,
                            range_stop = min (k * (n div nat (4 * W) + 1) + (n div nat (4 * W) + 1)) n\<rparr>)
                  [0..<(n + (n div nat (4 * W) + 1) - 1) div (n div nat (4 * W) + 1)])"
proof -
  have pos: "0 < 4 * W" using assms by simp
  have "int n div (4 * W) = int (n div nat (4 * W))"
    using pos by (simp add: zdiv_int)
  then have s: "nat (int n div (4 * W) + 1) = n div nat (4 * W) + 1"
    by (simp add: nat_add_distrib)
  have s0: "int n div (4 * W) + 1 > 0" using pos
    by (smt (verit) pos_imp_zdiv_nonneg_iff of_nat_0_le_iff)
  show ?thesis
    using pos s s0
    by (simp add: chunk_tasks_def range_it_def range_len_def range_slice_def Let_def)
qed

text \<open>
  C8, the claim as stated fails: for 10 dofs on axis 0 and 2 workers, \<open>chunk_tasks\<close> cuts
  the range into 5 chunks of 2 indices, not into \<open>4 * 2 = 8\<close> chunks.
\<close>

theorem C8_chunk_count_counterexample:
  "chunk_tasks (range_it 10) (4 * 2)
   = Some [\<lparr>range_start = 0, range_stop = 2\<rparr>, \<lparr>range_start = 2, range_stop = 4\<rparr>,
           \<lparr>range_start = 4, range_stop = 6\<rparr>, \<lparr>range_start = 6, range_stop = 8\<rparr>,
           \<lparr>range_start = 8, range_stop = 10\<rparr>]"
  by (simp add: chunk_tasks_def range_it_def range_len_def range_slice_def Let_def upt_rec)

text \<open>
  C8, as amended: for every axis-0 dof count \<open>n\<close> and worker count \<open>W > 1\<close>,
  \<open>chunk_tasks(range(n), 4 * W)\<close> returns exactly \<open>ceil(n / s)\<close> chunks for the chunk size
  \<open>s = n // (4 * W) + 1\<close>, which is at most \<open>4 * W\<close> (and at least one when \<open>n > 0\<close>); chunk
  \<open>k\<close> is the range from \<open>k * s\<close> to \<open>min(k * s + s, n)\<close>. None of the chunks is empty, each
  starts where the one before it stops, and their concatenation in order is exactly the
  range \<open>[0, n)\<close>; so the chunks are contiguous, pairwise disjoint, in increasing order and
  cover every index.
\<close>

theorem C8_chunks_partition:
  assumes "1 < W"
  shows "\<exists>chunks. chunk_tasks (range_it n) (4 * W) = Some chunks
           \<and> concat (map range_list chunks) = [0..<n]
           \<and> list_all (\<lambda>c. range_start c < range_stop c) chunks
           \<and> (\<forall>k. Suc k < length chunks \<longrightarrow> range_stop (chunks ! k) = range_start (chunks ! Suc k))
           \<and> length chunks = (n + (n div nat (4 * W) + 1) - 1) div (n div nat (4 * W) + 1)
           \<and> (\<forall>k. k < length chunks
                 \<longrightarrow> range_start (chunks ! k) = k * (n div nat (4 * W) + 1)
                   \<and> range_stop (chunks ! k)
                       = min (k * (n div nat (4 * W) + 1) + (n div nat (4 * W) + 1)) n)
           \<and> length chunks \<le> nat (4 * W)
           \<and> (0 < n \<longrightarrow> chunks \<noteq> [])"
proof -
  define s where "s = n div nat (4 * W) + 1"
  define m where "m = (n + s - 1) div s"
  define chunks where
    "chunks = map (\<lambda>k. \<lparr>range_start = min (k * s) n, range_stop = min (k * s + s) n\<rparr>) [0..<m]"
  have spos: "0 < s" by (simp add: s_def)
  have eq: "chunk_tasks (range_it n) (4 * W) = Some chunks"
    using chunk_tasks_eq[OF assms, of n] by (simp add: chunks_def m_def s_def)
  have ms: "n \<le> m * s"
  proof -
    have "n + s - 1 < (m + 1) * s"
      unfolding m_def using spos dividend_less_div_times[of s "n + s - 1"] by (simp add: algebra_simps)
    then show ?thesis using spos by simp
  qed
  have below: "k * s < n" if "k < m" for k
  proof -
    have "k + 1 \<le> (n + s - 1) div s" using that by (simp add: m_def)
    then have "(k + 1) * s \<le> n + s - 1"
      using spos by (simp add: less_eq_div_iff_mult_less_eq)
    then show ?thesis using spos by (simp add: algebra_simps)
  qed
  have c1: "concat (map range_list chunks) = [0..<n]"
  proof -
    have "concat (map range_list chunks)
          = concat (map (\<lambda>k. [min (k * s) n..<min (k * s + s) n]) [0..<m])"
      by (simp add: chunks_def range_list_def comp_def)
    also have "\<dots> = [0..<min (m * s) n]" by (rule concat_chunks_upt)
    finally show ?thesis using ms by (simp add: min_def)
  qed
  have c2: "list_all (\<lambda>c. range_start c < range_stop c) chunks"
    using below spos by (auto simp: chunks_def list_all_iff)
  have c3: "\<forall>k. Suc k < length chunks \<longrightarrow> range_stop (chunks ! k) = range_start (chunks ! Suc k)"
    by (simp add: chunks_def add.commute)
  have c4: "length chunks \<le> nat (4 * W)"
  proof -
    have "0 < nat (4 * W)" using assms by simp
    from chunk_count_le[OF this, of n] show ?thesis by (simp add: chunks_def m_def s_def)
  qed
  have c5: "0 < n \<longrightarrow> chunks \<noteq> []"
  proof
    assume "0 < n"
    then have "m \<noteq> 0" using ms by (cases m) auto
    then show "chunks \<noteq> []" by (simp add: chunks_def)
  qed
  have c6: "length chunks = (n + (n div nat (4 * W) + 1) - 1) div (n div nat (4 * W) + 1)"
    by (simp add: chunks_def m_def s_def)
  have c7: "\<forall>k. k < length chunks
                 \<longrightarrow> range_start (chunks ! k) = k * (n div nat (4 * W) + 1)
                   \<and> range_stop (chunks ! k)
                       = min (k * (n div nat (4 * W) + 1) + (n div nat (4 * W) + 1)) n"
  proof (intro allI impI)
    fix k assume "k < length chunks"
    then have k: "k < m" by (simp add: chunks_def)
    then have "min (k * s) n = k * s" using below[OF k] by simp
    then show "range_start (chunks ! k) = k * (n div nat (4 * W) + 1)
                   \<and> range_stop (chunks ! k)
                       = min (k * (n div nat (4 * W) + 1) + (n div nat (4 * W) + 1)) n"
      using k unfolding chunks_def s_def[symmetric] by simp
  qed
  show ?thesis using eq c1 c2 c3 c4 c5 c6 c7 by blast
qed

theorem C8_chunks_partition_witness:
  "(1 :: int) < 2
   \<and> (\<exists>chunks. chunk_tasks (range_it 7) (4 * 2) = Some chunks
           \<and> concat (map range_list chunks) = [0..<7]
           \<and> list_all (\<lambda>c. range_start c < range_stop c) chunks
           \<and> (\<forall>k. Suc k < length chunks \<longrightarrow> range_stop (chunks ! k) = range_start (chunks ! Suc k))
           \<and> length chunks = (7 + (7 div nat (4 * 2) + 1) - 1) div (7 div nat (4 * 2) + 1)
           \<and> (\<forall>k. k < length chunks
                 \<longrightarrow> range_start (chunks ! k) = k * (7 div nat (4 * 2) + 1)
                   \<and> range_stop (chunks ! k)
                       = min (k * (7 div nat (4 * 2) + 1) + (7 div nat (4 * 2) + 1)) 7)
           \<and> length chunks \<le> nat (4 * 2)
           \<and> (0 < (7 :: nat) \<longrightarrow> chunks \<noteq> []))"
proof -
  have h: "(1 :: int) < 2" by simp
  show ?thesis by (intro conjI h C8_chunks_partition[OF h])
qed

subsection \<open>The short circuit of \<open>assemble_impl\<close>\<close>

lemma c_int_fits: "fits_int x \<Longrightarrow> c_int x = x"
  by (simp add: c_int_def fits_int_def)

lemma axis_overlap_Some:
  assumes "rows_in_tables asm d i" "rows_in_tables asm d j" "k < d"
  shows "axis_overlap asm k i j
         = Some (make_intv
             (max (c_int (fst (meshsupp asm ! k ! (i ! k)))) (c_int (fst (meshsupp asm ! k ! (j ! k)))))
             (min (c_int (snd (meshsupp asm ! k ! (i ! k)))) (c_int (snd (meshsupp asm ! k ! (j ! k))))))"
  using assms
  by (simp add: axis_overlap_def rows_in_tables_def intersect_intervals_def make_intv_def Let_def)

lemma axis_overlap_empty_iff:
  assumes "rows_in_tables asm d i" "rows_in_tables asm d j" "k < d"
  shows "\<exists>intv. axis_overlap asm k i j = Some intv
          \<and> (endpoints_fit_int asm k i \<and> endpoints_fit_int asm k j
             \<longrightarrow> (intv_a intv \<ge> intv_b intv \<longleftrightarrow> supports_disjoint_on_axis asm k i j))"
  using axis_overlap_Some[OF assms]
  by (simp add: make_intv_def supports_disjoint_on_axis_def endpoints_fit_int_def c_int_fits)

lemma mass2d_zero:
  assumes r: "rows_in_tables asm 2 i" "rows_in_tables asm 2 j"
    and d: "\<exists>k<2. supports_disjoint_on_axis asm k i j
               \<and> endpoints_fit_int asm k i \<and> endpoints_fit_int asm k j"
  shows "MassAssembler2D_assemble_impl asm i j = Some 0"
proof -
  from axis_overlap_empty_iff[OF r, of 0] obtain v0 where
    v0: "axis_overlap asm 0 i j = Some v0"
        "endpoints_fit_int asm 0 i \<and> endpoints_fit_int asm 0 j
         \<longrightarrow> (intv_a v0 \<ge> intv_b v0 \<longleftrightarrow> supports_disjoint_on_axis asm 0 i j)" by auto
  from axis_overlap_empty_iff[OF r, of 1] obtain v1 where
    v1: "axis_overlap asm 1 i j = Some v1"
        "endpoints_fit_int asm 1 i \<and> endpoints_fit_int asm 1 j
         \<longrightarrow> (intv_a v1 \<ge> intv_b v1 \<longleftrightarrow> supports_disjoint_on_axis asm 1 i j)" by auto
  from d obtain k where k: "k < 2" "supports_disjoint_on_axis asm k i j"
    "endpoints_fit_int asm k i" "endpoints_fit_int asm k j" by blast
  then have "k = 0 \<or> k = 1" by arith
  with k v0(2) v1(2) have "intv_a v0 \<ge> intv_b v0 \<or> intv_a v1 \<ge> intv_b v1"
    by blast
  then show ?thesis
    unfolding MassAssembler2D_assemble_impl_def MassAssembler2D_assemble_impl_with_def
    using v0(1) v1(1) by (auto simp: Let_def)
qed

lemma stiff2d_zero:
  assumes r: "rows_in_tables asm 2 i" "rows_in_tables asm 2 j"
    and d: "\<exists>k<2. supports_disjoint_on_axis asm k i j
               \<and> endpoints_fit_int asm k i \<and> endpoints_fit_int asm k j"
  shows "StiffnessAssembler2D_assemble_impl asm i j = Some 0"
proof -
  from axis_overlap_empty_iff[OF r, of 0] obtain v0 where
    v0: "axis_overlap asm 0 i j = Some v0"
        "endpoints_fit_int asm 0 i \<and> endpoints_fit_int asm 0 j
         \<longrightarrow> (intv_a v0 \<ge> intv_b v0 \<longleftrightarrow> supports_disjoint_on_axis asm 0 i j)" by auto
  from axis_overlap_empty_iff[OF r, of 1] obtain v1 where
    v1: "axis_overlap asm 1 i j = Some v1"
        "endpoints_fit_int asm 1 i \<and> endpoints_fit_int asm 1 j
         \<longrightarrow> (intv_a v1 \<ge> intv_b v1 \<longleftrightarrow> supports_disjoint_on_axis asm 1 i j)" by auto
  from d obtain k where k: "k < 2" "supports_disjoint_on_axis asm k i j"
    "endpoints_fit_int asm k i" "endpoints_fit_int asm k j" by blast
  then have "k = 0 \<or> k = 1" by arith
  with k v0(2) v1(2) have "intv_a v0 \<ge> intv_b v0 \<or> intv_a v1 \<ge> intv_b v1"
    by blast
  then show ?thesis
    unfolding StiffnessAssembler2D_assemble_impl_def StiffnessAssembler2D_assemble_impl_with_def
    using v0(1) v1(1) by (auto simp: Let_def)
qed

lemma mass3d_zero:
  assumes r: "rows_in_tables asm 3 i" "rows_in_tables asm 3 j"
    and d: "\<exists>k<3. supports_disjoint_on_axis asm k i j
               \<and> endpoints_fit_int asm k i \<and> endpoints_fit_int asm k j"
  shows "MassAssembler3D_assemble_impl asm i j = Some 0"
proof -
  from axis_overlap_empty_iff[OF r, of 0] obtain v0 where
    v0: "axis_overlap asm 0 i j = Some v0"
        "endpoints_fit_int asm 0 i \<and> endpoints_fit_int asm 0 j
         \<longrightarrow> (intv_a v0 \<ge> intv_b v0 \<longleftrightarrow> supports_disjoint_on_axis asm 0 i j)" by auto
  from axis_overlap_empty_iff[OF r, of 1] obtain v1 where
    v1: "axis_overlap asm 1 i j = Some v1"
        "endpoints_fit_int asm 1 i \<and> endpoints_fit_int asm 1 j
         \<longrightarrow> (intv_a v1 \<ge> intv_b v1 \<longleftrightarrow> supports_disjoint_on_axis asm 1 i j)" by auto
  from axis_overlap_empty_iff[OF r, of 2] obtain v2 where
    v2: "axis_overlap asm 2 i j = Some v2"
        "endpoints_fit_int asm 2 i \<and> endpoints_fit_int asm 2 j
         \<longrightarrow> (intv_a v2 \<ge> intv_b v2 \<longleftrightarrow> supports_disjoint_on_axis asm 2 i j)" by auto
  from d obtain k where k: "k < 3" "supports_disjoint_on_axis asm k i j"
    "endpoints_fit_int asm k i" "endpoints_fit_int asm k j" by blast
  then have "k = 0 \<or> k = 1 \<or> k = 2" by arith
  with k v0(2) v1(2) v2(2) have "intv_a v0 \<ge> intv_b v0 \<or> intv_a v1 \<ge> intv_b v1 \<or> intv_a v2 \<ge> intv_b v2"
    by blast
  then show ?thesis
    unfolding MassAssembler3D_assemble_impl_def MassAssembler3D_assemble_impl_with_def
    using v0(1) v1(1) v2(1) by (auto simp: Let_def)
qed

lemma stiff3d_zero:
  assumes r: "rows_in_tables asm 3 i" "rows_in_tables asm 3 j"
    and d: "\<exists>k<3. supports_disjoint_on_axis asm k i j
               \<and> endpoints_fit_int asm k i \<and> endpoints_fit_int asm k j"
  shows "StiffnessAssembler3D_assemble_impl asm i j = Some 0"
proof -
  from axis_overlap_empty_iff[OF r, of 0] obtain v0 where
    v0: "axis_overlap asm 0 i j = Some v0"
        "endpoints_fit_int asm 0 i \<and> endpoints_fit_int asm 0 j
         \<longrightarrow> (intv_a v0 \<ge> intv_b v0 \<longleftrightarrow> supports_disjoint_on_axis asm 0 i j)" by auto
  from axis_overlap_empty_iff[OF r, of 1] obtain v1 where
    v1: "axis_overlap asm 1 i j = Some v1"
        "endpoints_fit_int asm 1 i \<and> endpoints_fit_int asm 1 j
         \<longrightarrow> (intv_a v1 \<ge> intv_b v1 \<longleftrightarrow> supports_disjoint_on_axis asm 1 i j)" by auto
  from axis_overlap_empty_iff[OF r, of 2] obtain v2 where
    v2: "axis_overlap asm 2 i j = Some v2"
        "endpoints_fit_int asm 2 i \<and> endpoints_fit_int asm 2 j
         \<longrightarrow> (intv_a v2 \<ge> intv_b v2 \<longleftrightarrow> supports_disjoint_on_axis asm 2 i j)" by auto
  from d obtain k where k: "k < 3" "supports_disjoint_on_axis asm k i j"
    "endpoints_fit_int asm k i" "endpoints_fit_int asm k j" by blast
  then have "k = 0 \<or> k = 1 \<or> k = 2" by arith
  with k v0(2) v1(2) v2(2) have "intv_a v0 \<ge> intv_b v0 \<or> intv_a v1 \<ge> intv_b v1 \<or> intv_a v2 \<ge> intv_b v2"
    by blast
  then show ?thesis
    unfolding StiffnessAssembler3D_assemble_impl_def StiffnessAssembler3D_assemble_impl_with_def
    using v0(1) v1(1) v2(1) by (auto simp: Let_def)
qed

lemma base_fields_of_mass_update:
  "rows_in_tables (asm\<lparr>C := c', geo_weights_shape := sh', geo_weights := gw'\<rparr>) d i
     = rows_in_tables asm d i"
  "supports_disjoint_on_axis (asm\<lparr>C := c', geo_weights_shape := sh', geo_weights := gw'\<rparr>) k i j
     = supports_disjoint_on_axis asm k i j"
  "endpoints_fit_int (asm\<lparr>C := c', geo_weights_shape := sh', geo_weights := gw'\<rparr>) k i
     = endpoints_fit_int asm k i"
  by (simp_all add: rows_in_tables_def supports_disjoint_on_axis_def endpoints_fit_int_def)

lemma base_fields_of_stiffness_update:
  "rows_in_tables (asm\<lparr>C_derivs := c', B_shape := sh', B := b'\<rparr>) d i = rows_in_tables asm d i"
  "supports_disjoint_on_axis (asm\<lparr>C_derivs := c', B_shape := sh', B := b'\<rparr>) k i j
     = supports_disjoint_on_axis asm k i j"
  "endpoints_fit_int (asm\<lparr>C_derivs := c', B_shape := sh', B := b'\<rparr>) k i
     = endpoints_fit_int asm k i"
  by (simp_all add: rows_in_tables_def supports_disjoint_on_axis_def endpoints_fit_int_def)

subsection \<open>Rounding to double\<close>

lemma round_half_even_of_int: "round_half_even (of_int n) = n"
  by (simp add: round_half_even_def)

lemma round_to_double_zero: "round_to_double 0 = 0"
  by (simp add: round_to_double_def)

lemma floor_log2_eq:
  assumes "2 powr of_int k \<le> \<bar>x\<bar>" "\<bar>x\<bar> < 2 powr of_int (k + 1)"
  shows "\<lfloor>log 2 \<bar>x\<bar>\<rfloor> = k"
proof -
  have pos: "0 < \<bar>x\<bar>" using assms(1) by (smt (verit) powr_gt_zero)
  have "of_int k \<le> log 2 \<bar>x\<bar>" using assms(1) pos by (simp add: le_log_iff)
  moreover have "log 2 \<bar>x\<bar> < of_int (k + 1)" using assms(2) pos by (simp add: log_less_iff)
  ultimately show ?thesis by linarith
qed

lemma two_powr_nat: "2 powr of_int (int n) = (2 :: real) ^ n"
  using powr_realpow[of "2 :: real" n] by simp

lemma two_powr_diff: "2 powr of_int (int m - int k) = (2 :: real) ^ m / 2 ^ k"
proof -
  have "2 powr of_int (int m - int k) = (2 :: real) powr (of_int (int m) - of_int (int k))"
    by simp
  also have "\<dots> = 2 powr of_int (int m) / 2 powr of_int (int k)" by (rule powr_diff)
  finally show ?thesis unfolding two_powr_nat .
qed

text \<open>
  The rounding of a number whose binary exponent is known: between \<open>2\<^sup>5\<^sup>2\<^sup>+\<^sup>k\<close> and
  \<open>2\<^sup>5\<^sup>3\<^sup>+\<^sup>k\<close> the doubles are the multiples of \<open>2\<^sup>k\<close>, and a number that \<open>2\<^sup>k\<close> scales into
  \<open>[2\<^sup>5\<^sup>2, 2\<^sup>5\<^sup>3)\<close> is rounded to a multiple of \<open>2\<^sup>-\<^sup>k\<close>.
\<close>

lemma round_to_double_down:
  assumes "2 ^ (52 + k) \<le> \<bar>x\<bar>" "\<bar>x\<bar> < 2 ^ (53 + k)"
  shows "round_to_double x = of_int (round_half_even (x / 2 ^ k)) * 2 ^ k"
proof -
  have e: "\<lfloor>log 2 \<bar>x\<bar>\<rfloor> = int (52 + k)"
  proof (rule floor_log2_eq)
    show "2 powr of_int (int (52 + k)) \<le> \<bar>x\<bar>" unfolding two_powr_nat by (rule assms(1))
    have "int (52 + k) + 1 = int (53 + k)" by simp
    then show "\<bar>x\<bar> < 2 powr of_int (int (52 + k) + 1)"
      unfolding two_powr_nat using assms(2) by (simp only: two_powr_nat)
  qed
  have "(0 :: real) < 2 ^ (52 + k)" by simp
  with assms(1) have "0 < \<bar>x\<bar>" by linarith
  then have x: "x \<noteq> 0" by simp
  have "int (52 + k) - 52 = int k" by simp
  then have p: "2 powr of_int (int (52 + k) - 52) = (2 :: real) ^ k"
    by (simp only: two_powr_nat)
  show ?thesis unfolding round_to_double_def Let_def e p using x by simp
qed

lemma round_to_double_up:
  assumes "2 ^ 52 \<le> \<bar>x\<bar> * 2 ^ k" "\<bar>x\<bar> * 2 ^ k < 2 ^ 53"
  shows "round_to_double x = of_int (round_half_even (x * 2 ^ k)) / 2 ^ k"
proof -
  have e: "\<lfloor>log 2 \<bar>x\<bar>\<rfloor> = int 52 - int k"
  proof (rule floor_log2_eq)
    have "(2 :: real) ^ 52 / 2 ^ k \<le> \<bar>x\<bar>" using assms(1) by (simp add: field_simps)
    then show "2 powr of_int (int 52 - int k) \<le> \<bar>x\<bar>" unfolding two_powr_diff .
    have "\<bar>x\<bar> < (2 :: real) ^ 53 / 2 ^ k" using assms(2) by (simp add: field_simps)
    moreover have "int 52 - int k + 1 = int 53 - int k" by simp
    ultimately show "\<bar>x\<bar> < 2 powr of_int (int 52 - int k + 1)"
      by (simp only: two_powr_diff)
  qed
  have x: "x \<noteq> 0" using assms(1) by auto
  have "int 52 - int k - 52 = int 0 - int k" by simp
  then have "2 powr of_int (int 52 - int k - 52) = (2 :: real) ^ 0 / 2 ^ k"
    by (simp only: two_powr_diff)
  then have p: "2 powr of_int (int 52 - int k - 52) = 1 / (2 :: real) ^ k" by simp
  show ?thesis unfolding round_to_double_def Let_def e p using x by simp
qed

lemma round_to_double_one: "round_to_double 1 = 1"
  using round_to_double_up[of 1 52] by (simp add: round_half_even_def)

lemma fl_ones:
  "fmul round_to_double 1 1 = 1" "fadd round_to_double 0 1 = 1"
  by (simp_all add: fmul_def fadd_def round_to_double_one)

lemmas round_to_double_at =
  round_to_double_up[where k = 52] round_to_double_up[where k = 53]
  round_to_double_up[where k = 54] round_to_double_up[where k = 55]

lemma wide_mass_facts:
  "rows_in_tables wide_mass 2 [0, 0]" "rows_in_tables wide_mass 2 [1, 0]"
  "supports_disjoint_on_axis wide_mass 0 [0, 0] [1, 0]"
  "\<not> endpoints_fit_int wide_mass 0 [1, 0]"
  "valid_index (ndofs wide_mass) [0, 0]" "valid_index (ndofs wide_mass) [1, 0]"
  by (simp_all add: rows_in_tables_def supports_disjoint_on_axis_def endpoints_fit_int_def
      fits_int_def wide_mass_def valid_index_def less_Suc_eq numeral_2_eq_2 nth_Cons')

lemma wide_mass_entry: "MassAssembler2D_assemble_impl wide_mass [0, 0] [1, 0] = Some 1"
  by (simp add: MassAssembler2D_assemble_impl_def MassAssembler2D_assemble_impl_with_def
      axis_overlap_def wide_mass_def Let_def c_int_def
      intersect_intervals_def make_intv_def combine_mass_2d_def slice_len_def size_t_of_int_def
      fl_ones)

subsection \<open>The short circuit and the range of C int\<close>

text \<open>
  C4, the claim as stated fails: the endpoints are narrowed to C \<open>int\<close> before they are
  compared. On axis 0 of \<open>wide_mass\<close> the supports \<open>[0, 1)\<close> and \<open>[2\<^sup>3\<^sup>2, 2\<^sup>3\<^sup>2 + 1)\<close> of
  \<open>i = (0, 0)\<close> and \<open>j = (1, 0)\<close> are disjoint, but the narrowed endpoints of \<open>j\<close> are 0 and
  1, the kernel runs and \<open>assemble_impl(i, j)\<close> is 1.
\<close>

theorem C4_narrowed_endpoints_counterexample:
  "rows_in_tables wide_mass 2 [0, 0] \<and> rows_in_tables wide_mass 2 [1, 0]
   \<and> supports_disjoint_on_axis wide_mass 0 [0, 0] [1, 0]
   \<and> meshsupp wide_mass ! 0 ! 1 = (4294967296, 4294967297)
   \<and> c_int 4294967296 = 0 \<and> c_int 4294967297 = 1
   \<and> MassAssembler2D_assemble_impl wide_mass [0, 0] [1, 0] = Some 1"
proof -
  have a: "meshsupp wide_mass ! 0 ! 1 = (4294967296, 4294967297)" by (simp add: wide_mass_def)
  have b: "c_int 4294967296 = 0" "c_int 4294967297 = 1" by (simp_all add: c_int_def)
  show ?thesis
    by (intro conjI wide_mass_facts(1) wide_mass_facts(2) wide_mass_facts(3) a b
        wide_mass_entry)
qed

text \<open>
  C4, as amended: for each of the four assemblers and every pair of multi-indices whose
  rows exist in the mesh-support tables, if on at least one axis the intersection of the
  two supports is empty and the four endpoints of that axis fit in a C \<open>int\<close>, then
  \<open>assemble_impl\<close> returns exactly 0. The value is the same whatever the basis-value
  tensor and the weight tensor (and its shape) hold: the tensors of the assembler are
  replaced by arbitrary ones in the statement.
\<close>

theorem C4_disjoint_supports_give_zero:
  "(rows_in_tables masm 2 i \<and> rows_in_tables masm 2 j
      \<and> (\<exists>k<2. supports_disjoint_on_axis masm k i j
             \<and> endpoints_fit_int masm k i \<and> endpoints_fit_int masm k j)
     \<longrightarrow> MassAssembler2D_assemble_impl
           (masm\<lparr>C := c', geo_weights_shape := sh', geo_weights := gw'\<rparr>) i j = Some 0)
   \<and> (rows_in_tables sasm 2 i \<and> rows_in_tables sasm 2 j
      \<and> (\<exists>k<2. supports_disjoint_on_axis sasm k i j
             \<and> endpoints_fit_int sasm k i \<and> endpoints_fit_int sasm k j)
     \<longrightarrow> StiffnessAssembler2D_assemble_impl
           (sasm\<lparr>C_derivs := cd', B_shape := sh', B := b'\<rparr>) i j = Some 0)
   \<and> (rows_in_tables masm 3 i \<and> rows_in_tables masm 3 j
      \<and> (\<exists>k<3. supports_disjoint_on_axis masm k i j
             \<and> endpoints_fit_int masm k i \<and> endpoints_fit_int masm k j)
     \<longrightarrow> MassAssembler3D_assemble_impl
           (masm\<lparr>C := c', geo_weights_shape := sh', geo_weights := gw'\<rparr>) i j = Some 0)
   \<and> (rows_in_tables sasm 3 i \<and> rows_in_tables sasm 3 j
      \<and> (\<exists>k<3. supports_disjoint_on_axis sasm k i j
             \<and> endpoints_fit_int sasm k i \<and> endpoints_fit_int sasm k j)
     \<longrightarrow> StiffnessAssembler3D_assemble_impl
           (sasm\<lparr>C_derivs := cd', B_shape := sh', B := b'\<rparr>) i j = Some 0)"
proof (intro conjI impI)
  assume "rows_in_tables masm 2 i \<and> rows_in_tables masm 2 j
      \<and> (\<exists>k<2. supports_disjoint_on_axis masm k i j
             \<and> endpoints_fit_int masm k i \<and> endpoints_fit_int masm k j)"
  then show "MassAssembler2D_assemble_impl
           (masm\<lparr>C := c', geo_weights_shape := sh', geo_weights := gw'\<rparr>) i j = Some 0"
    by (intro mass2d_zero) (simp_all only: base_fields_of_mass_update)
next
  assume "rows_in_tables sasm 2 i \<and> rows_in_tables sasm 2 j
      \<and> (\<exists>k<2. supports_disjoint_on_axis sasm k i j
             \<and> endpoints_fit_int sasm k i \<and> endpoints_fit_int sasm k j)"
  then show "StiffnessAssembler2D_assemble_impl
           (sasm\<lparr>C_derivs := cd', B_shape := sh', B := b'\<rparr>) i j = Some 0"
    by (intro stiff2d_zero) (simp_all only: base_fields_of_stiffness_update)
next
  assume "rows_in_tables masm 3 i \<and> rows_in_tables masm 3 j
      \<and> (\<exists>k<3. supports_disjoint_on_axis masm k i j
             \<and> endpoints_fit_int masm k i \<and> endpoints_fit_int masm k j)"
  then show "MassAssembler3D_assemble_impl
           (masm\<lparr>C := c', geo_weights_shape := sh', geo_weights := gw'\<rparr>) i j = Some 0"
    by (intro mass3d_zero) (simp_all only: base_fields_of_mass_update)
next
  assume "rows_in_tables sasm 3 i \<and> rows_in_tables sasm 3 j
      \<and> (\<exists>k<3. supports_disjoint_on_axis sasm k i j
             \<and> endpoints_fit_int sasm k i \<and> endpoints_fit_int sasm k j)"
  then show "StiffnessAssembler3D_assemble_impl
           (sasm\<lparr>C_derivs := cd', B_shape := sh', B := b'\<rparr>) i j = Some 0"
    by (intro stiff3d_zero) (simp_all only: base_fields_of_stiffness_update)
qed

lemma example_rows:
  "rows_in_tables (example_mass 2) 2 [0, 1]" "rows_in_tables (example_mass 2) 2 [1, 1]"
  "rows_in_tables (example_stiffness 2) 2 [0, 1]" "rows_in_tables (example_stiffness 2) 2 [1, 1]"
  "rows_in_tables (example_mass 3) 3 [0, 1, 0]" "rows_in_tables (example_mass 3) 3 [0, 1, 1]"
  "rows_in_tables (example_stiffness 3) 3 [0, 1, 0]" "rows_in_tables (example_stiffness 3) 3 [0, 1, 1]"
  by (simp_all add: rows_in_tables_def example_mass_def example_stiffness_def
      less_Suc_eq numeral_2_eq_2 numeral_3_eq_3 nth_Cons')

lemma example_disjoint:
  "\<exists>k<2. supports_disjoint_on_axis (example_mass 2) k [0, 1] [1, 1]
      \<and> endpoints_fit_int (example_mass 2) k [0, 1] \<and> endpoints_fit_int (example_mass 2) k [1, 1]"
  "\<exists>k<2. supports_disjoint_on_axis (example_stiffness 2) k [0, 1] [1, 1]
      \<and> endpoints_fit_int (example_stiffness 2) k [0, 1]
      \<and> endpoints_fit_int (example_stiffness 2) k [1, 1]"
  "\<exists>k<3. supports_disjoint_on_axis (example_mass 3) k [0, 1, 0] [0, 1, 1]
      \<and> endpoints_fit_int (example_mass 3) k [0, 1, 0]
      \<and> endpoints_fit_int (example_mass 3) k [0, 1, 1]"
  "\<exists>k<3. supports_disjoint_on_axis (example_stiffness 3) k [0, 1, 0] [0, 1, 1]
      \<and> endpoints_fit_int (example_stiffness 3) k [0, 1, 0]
      \<and> endpoints_fit_int (example_stiffness 3) k [0, 1, 1]"
proof -
  show "\<exists>k<2. supports_disjoint_on_axis (example_mass 2) k [0, 1] [1, 1]
      \<and> endpoints_fit_int (example_mass 2) k [0, 1] \<and> endpoints_fit_int (example_mass 2) k [1, 1]"
    by (rule exI[of _ 0])
      (simp add: supports_disjoint_on_axis_def endpoints_fit_int_def fits_int_def example_mass_def)
  show "\<exists>k<2. supports_disjoint_on_axis (example_stiffness 2) k [0, 1] [1, 1]
      \<and> endpoints_fit_int (example_stiffness 2) k [0, 1]
      \<and> endpoints_fit_int (example_stiffness 2) k [1, 1]"
    by (rule exI[of _ 0])
      (simp add: supports_disjoint_on_axis_def endpoints_fit_int_def fits_int_def
        example_stiffness_def)
  show "\<exists>k<3. supports_disjoint_on_axis (example_mass 3) k [0, 1, 0] [0, 1, 1]
      \<and> endpoints_fit_int (example_mass 3) k [0, 1, 0]
      \<and> endpoints_fit_int (example_mass 3) k [0, 1, 1]"
    by (rule exI[of _ 2])
      (simp add: supports_disjoint_on_axis_def endpoints_fit_int_def fits_int_def example_mass_def)
  show "\<exists>k<3. supports_disjoint_on_axis (example_stiffness 3) k [0, 1, 0] [0, 1, 1]
      \<and> endpoints_fit_int (example_stiffness 3) k [0, 1, 0]
      \<and> endpoints_fit_int (example_stiffness 3) k [0, 1, 1]"
    by (rule exI[of _ 2])
      (simp add: supports_disjoint_on_axis_def endpoints_fit_int_def fits_int_def
        example_stiffness_def)
qed

theorem C4_disjoint_supports_witness:
  "rows_in_tables (example_mass 2) 2 [0, 1] \<and> rows_in_tables (example_mass 2) 2 [1, 1]
   \<and> (\<exists>k<2. supports_disjoint_on_axis (example_mass 2) k [0, 1] [1, 1]
         \<and> endpoints_fit_int (example_mass 2) k [0, 1]
         \<and> endpoints_fit_int (example_mass 2) k [1, 1])
   \<and> MassAssembler2D_assemble_impl
        ((example_mass 2)\<lparr>C := (\<lambda>k q f. 7), geo_weights_shape := [2, 2], geo_weights := (\<lambda>q. 3)\<rparr>)
        [0, 1] [1, 1] = Some 0
   \<and> rows_in_tables (example_stiffness 2) 2 [0, 1] \<and> rows_in_tables (example_stiffness 2) 2 [1, 1]
   \<and> (\<exists>k<2. supports_disjoint_on_axis (example_stiffness 2) k [0, 1] [1, 1]
         \<and> endpoints_fit_int (example_stiffness 2) k [0, 1]
         \<and> endpoints_fit_int (example_stiffness 2) k [1, 1])
   \<and> StiffnessAssembler2D_assemble_impl
        ((example_stiffness 2)\<lparr>C_derivs := (\<lambda>k f q m. 7), B_shape := [2, 2], B := (\<lambda>q r c. 3)\<rparr>)
        [0, 1] [1, 1] = Some 0
   \<and> rows_in_tables (example_mass 3) 3 [0, 1, 0] \<and> rows_in_tables (example_mass 3) 3 [0, 1, 1]
   \<and> (\<exists>k<3. supports_disjoint_on_axis (example_mass 3) k [0, 1, 0] [0, 1, 1]
         \<and> endpoints_fit_int (example_mass 3) k [0, 1, 0]
         \<and> endpoints_fit_int (example_mass 3) k [0, 1, 1])
   \<and> MassAssembler3D_assemble_impl
        ((example_mass 3)\<lparr>C := (\<lambda>k q f. 7), geo_weights_shape := [2, 2], geo_weights := (\<lambda>q. 3)\<rparr>)
        [0, 1, 0] [0, 1, 1] = Some 0
   \<and> rows_in_tables (example_stiffness 3) 3 [0, 1, 0] \<and> rows_in_tables (example_stiffness 3) 3 [0, 1, 1]
   \<and> (\<exists>k<3. supports_disjoint_on_axis (example_stiffness 3) k [0, 1, 0] [0, 1, 1]
         \<and> endpoints_fit_int (example_stiffness 3) k [0, 1, 0]
         \<and> endpoints_fit_int (example_stiffness 3) k [0, 1, 1])
   \<and> StiffnessAssembler3D_assemble_impl
        ((example_stiffness 3)\<lparr>C_derivs := (\<lambda>k f q m. 7), B_shape := [2, 2], B := (\<lambda>q r c. 3)\<rparr>)
        [0, 1, 0] [0, 1, 1] = Some 0"
proof -
  note two = C4_disjoint_supports_give_zero[where masm = "example_mass 2" and i = "[0, 1]"
      and j = "[1, 1]" and c' = "\<lambda>k q f. 7" and sh' = "[2, 2]" and gw' = "\<lambda>q. 3"
      and sasm = "example_stiffness 2" and cd' = "\<lambda>k f q m. 7" and b' = "\<lambda>q r c. 3"]
  note three = C4_disjoint_supports_give_zero[where masm = "example_mass 3" and i = "[0, 1, 0]"
      and j = "[0, 1, 1]" and c' = "\<lambda>k q f. 7" and sh' = "[2, 2]" and gw' = "\<lambda>q. 3"
      and sasm = "example_stiffness 3" and cd' = "\<lambda>k f q m. 7" and b' = "\<lambda>q r c. 3"]
  show ?thesis
    using two three example_rows example_disjoint by blast
qed

subsection \<open>Symmetry of the entries\<close>

lemma axis_overlap_sym: "axis_overlap asm k j i = axis_overlap asm k i j"
  by (simp add: axis_overlap_def intersect_intervals_def make_intv_def Let_def max.commute
      min.commute conj_commute)

lemma combine_mass_2d_sym:
  "combine_mass_2d (\<lambda>x. x) n0 n1 J Vv0 Vv1 Vu0 Vu1
   = combine_mass_2d (\<lambda>x. x) n0 n1 J Vu0 Vu1 Vv0 Vv1"
proof -
  have "(\<lambda>acc i0. foldl (\<lambda>acc i1. acc + Vv0 i0 * Vv1 i1 * Vu0 i0 * Vu1 i1 * J i0 i1)
           acc [0..<n1])
        = (\<lambda>acc i0. foldl (\<lambda>acc i1. acc + Vu0 i0 * Vu1 i1 * Vv0 i0 * Vv1 i1 * J i0 i1)
           acc [0..<n1])"
    by (intro ext arg_cong2[where f = "\<lambda>f. foldl f _"] refl) (simp add: mult_ac)
  then show ?thesis by (simp add: combine_mass_2d_def fadd_def fmul_def)
qed

lemma mass_3d_step_sym:
  fixes acc :: real
  shows "acc + v0 * v1 * v2 * u0 * u1 * u2 * w = acc + u0 * u1 * u2 * v0 * v1 * v2 * w"
  by (simp add: mult_ac)

lemma combine_mass_3d_sym:
  "combine_mass_3d (\<lambda>x. x) n0 n1 n2 J Vv0 Vv1 Vv2 Vu0 Vu1 Vu2
   = combine_mass_3d (\<lambda>x. x) n0 n1 n2 J Vu0 Vu1 Vu2 Vv0 Vv1 Vv2"
  unfolding combine_mass_3d_def fadd_def fmul_def
  by (simp only: mass_3d_step_sym[of _ "Vv0 _" "Vv1 _" "Vv2 _" "Vu0 _" "Vu1 _" "Vu2 _"])

lemma stiff_2d_step_sym:
  fixes b0 b1 b2 b3 :: real
  assumes "b1 = b2"
  shows "acc + (b0 * gv0 + b1 * gv1) * gu0 + (b2 * gv0 + b3 * gv1) * gu1
       = acc + (b0 * gu0 + b1 * gu1) * gv0 + (b2 * gu0 + b3 * gu1) * gv1"
  using assms by (simp add: algebra_simps)

lemma combine_stiff_2d_sym:
  assumes "\<And>i0 i1. Bv i0 i1 1 = Bv i0 i1 2"
  shows "combine_stiff_2d (\<lambda>x. x) n0 n1 Bv VDv0 VDv1 VDu0 VDu1
       = combine_stiff_2d (\<lambda>x. x) n0 n1 Bv VDu0 VDu1 VDv0 VDv1"
  unfolding combine_stiff_2d_def Let_def fadd_def fmul_def
  by (simp only: stiff_2d_step_sym[OF assms])

lemma stiff_3d_step_sym:
  fixes b0 b1 b2 b3 b4 b5 b6 b7 b8 :: real
  assumes "b1 = b3" "b2 = b6" "b5 = b7"
  shows "acc + (b0 * gv0 + b1 * gv1 + b2 * gv2) * gu0
           + (b3 * gv0 + b4 * gv1 + b5 * gv2) * gu1
           + (b6 * gv0 + b7 * gv1 + b8 * gv2) * gu2
       = acc + (b0 * gu0 + b1 * gu1 + b2 * gu2) * gv0
           + (b3 * gu0 + b4 * gu1 + b5 * gu2) * gv1
           + (b6 * gu0 + b7 * gu1 + b8 * gu2) * gv2"
  using assms by (simp add: algebra_simps)

lemma combine_stiff_3d_sym:
  assumes "\<And>i0 i1 i2. Bv i0 i1 i2 1 = Bv i0 i1 i2 3"
    "\<And>i0 i1 i2. Bv i0 i1 i2 2 = Bv i0 i1 i2 6"
    "\<And>i0 i1 i2. Bv i0 i1 i2 5 = Bv i0 i1 i2 7"
  shows "combine_stiff_3d (\<lambda>x. x) n0 n1 n2 Bv VDv0 VDv1 VDv2 VDu0 VDu1 VDu2
       = combine_stiff_3d (\<lambda>x. x) n0 n1 n2 Bv VDu0 VDu1 VDu2 VDv0 VDv1 VDv2"
  unfolding combine_stiff_3d_def Let_def fadd_def fmul_def
  by (simp only: stiff_3d_step_sym[OF assms])

lemma mass2d_impl_sym:
  "MassAssembler2D_assemble_impl_with (\<lambda>x. x) asm j i
   = MassAssembler2D_assemble_impl_with (\<lambda>x. x) asm i j"
  unfolding MassAssembler2D_assemble_impl_with_def axis_overlap_sym[of asm _ j i]
    combine_mass_2d_sym[of _ _ _ "\<lambda>q. C asm 0 (_ + q) (j ! 0)"]
  by (rule refl)

lemma mass3d_impl_sym:
  "MassAssembler3D_assemble_impl_with (\<lambda>x. x) asm j i
   = MassAssembler3D_assemble_impl_with (\<lambda>x. x) asm i j"
  unfolding MassAssembler3D_assemble_impl_with_def axis_overlap_sym[of asm _ j i]
    combine_mass_3d_sym[of _ _ _ _ "\<lambda>q. C asm 0 (_ + q) (j ! 0)"]
  by (rule refl)

lemma stiff2d_impl_sym:
  assumes "\<And>q. B asm q 0 1 = B asm q 1 0"
  shows "StiffnessAssembler2D_assemble_impl_with (\<lambda>x. x) asm j i
       = StiffnessAssembler2D_assemble_impl_with (\<lambda>x. x) asm i j"
proof -
  have sym: "combine_stiff_2d (\<lambda>x. x) n0 n1
               (\<lambda>q0 q1 m. B asm [s0 + q0, s1 + q1] (m div 2) (m mod 2)) Pva Pvb Pua Pub
           = combine_stiff_2d (\<lambda>x. x) n0 n1
               (\<lambda>q0 q1 m. B asm [s0 + q0, s1 + q1] (m div 2) (m mod 2)) Pua Pub Pva Pvb"
    for n0 n1 s0 s1 Pva Pvb Pua Pub
    by (rule combine_stiff_2d_sym) (use assms in simp)
  show ?thesis
    unfolding StiffnessAssembler2D_assemble_impl_with_def axis_overlap_sym[of asm _ j i]
      sym[where Pva = "\<lambda>m. C_derivs asm 0 (j ! 0) (_ + m div 2) (m mod 2)"]
    by (rule refl)
qed

lemma stiff3d_impl_sym:
  assumes "\<And>q. B asm q 0 1 = B asm q 1 0" "\<And>q. B asm q 0 2 = B asm q 2 0"
    "\<And>q. B asm q 1 2 = B asm q 2 1"
  shows "StiffnessAssembler3D_assemble_impl_with (\<lambda>x. x) asm j i
       = StiffnessAssembler3D_assemble_impl_with (\<lambda>x. x) asm i j"
proof -
  have sym: "combine_stiff_3d (\<lambda>x. x) n0 n1 n2
               (\<lambda>q0 q1 q2 m. B asm [s0 + q0, s1 + q1, s2 + q2] (m div 3) (m mod 3))
               Pva Pvb Pvc Pua Pub Puc
           = combine_stiff_3d (\<lambda>x. x) n0 n1 n2
               (\<lambda>q0 q1 q2 m. B asm [s0 + q0, s1 + q1, s2 + q2] (m div 3) (m mod 3))
               Pua Pub Puc Pva Pvb Pvc"
    for n0 n1 n2 s0 s1 s2 Pva Pvb Pvc Pua Pub Puc
    by (rule combine_stiff_3d_sym) (use assms in simp_all)
  show ?thesis
    unfolding StiffnessAssembler3D_assemble_impl_with_def axis_overlap_sym[of asm _ j i]
      sym[where Pva = "\<lambda>m. C_derivs asm 0 (j ! 0) (_ + m div 2) (m mod 2)"]
    by (rule refl)
qed

lemma assemble2_sym:
  assumes "\<And>I J. impl J I = impl I J"
  shows "assemble2 impl asm j i = assemble2 impl asm i j"
proof (cases "ndofs asm ! 1 = 0")
  case True
  then show ?thesis by (simp add: assemble2_def from_seq2_def)
next
  case False
  then show ?thesis by (simp add: assemble2_def from_seq2_def assms[of "[j div _, _]"])
qed

lemma assemble3_sym:
  assumes "\<And>I J. impl J I = impl I J"
  shows "assemble3 impl asm j i = assemble3 impl asm i j"
proof (cases "ndofs asm ! 2 = 0 \<or> ndofs asm ! 1 = 0")
  case True
  then show ?thesis by (auto simp: assemble3_def from_seq3_def)
next
  case False
  then show ?thesis
    by (simp add: assemble3_def from_seq3_def Let_def assms[of "[j div _ div _, _, _]"])
qed

lemma matmatT_2x2_sym: "matmatT_2x2 Bm q l j = matmatT_2x2 Bm q j l"
  unfolding matmatT_2x2_def by (simp only: mult.commute[of "Bm q l _"])

lemma matmatT_3x3_sym: "matmatT_3x3 Bm q l j = matmatT_3x3 Bm q j l"
  unfolding matmatT_3x3_def by (simp only: mult.commute[of "Bm q l _"])

lemma stiff2d_init_B_sym:
  assumes "StiffnessAssembler2D_init ext kvs geo = Inr sasm"
  shows "B sasm q r c = B sasm q c r"
  using assms
  by (auto simp: StiffnessAssembler2D_init_def Let_def matmatT_2x2_sym[of _ q r c]
      split: if_splits prod.splits)

lemma stiff3d_init_B_sym:
  assumes "StiffnessAssembler3D_init ext kvs geo = Inr sasm"
  shows "B sasm q r c = B sasm q c r"
  using assms
  by (auto simp: StiffnessAssembler3D_init_def Let_def matmatT_3x3_sym[of _ q r c]
      split: if_splits prod.splits sum.splits)

lemma rounding_mass_seq:
  "from_seq2 (ndofs rounding_mass) 0 = Some [0, 0]"
  "from_seq2 (ndofs rounding_mass) 3 = Some [1, 1]"
  by (simp_all add: from_seq2_def rounding_mass_def)

lemma rounding_mass_upper:
  "MassAssembler2D_assemble_impl rounding_mass [0, 0] [1, 1]
   = Some (3940649791389697 / 18014398509481984)"
  by (simp add: MassAssembler2D_assemble_impl_def MassAssembler2D_assemble_impl_with_def
      axis_overlap_def rounding_mass_def Let_def c_int_def
      intersect_intervals_def make_intv_def combine_mass_2d_def slice_len_def size_t_of_int_def
      fmul_def fadd_def round_to_double_at round_half_even_def)

lemma rounding_mass_lower:
  "MassAssembler2D_assemble_impl rounding_mass [1, 1] [0, 0]
   = Some (7881299582779393 / 36028797018963968)"
  by (simp add: MassAssembler2D_assemble_impl_def MassAssembler2D_assemble_impl_with_def
      axis_overlap_def rounding_mass_def Let_def c_int_def
      intersect_intervals_def make_intv_def combine_mass_2d_def slice_len_def size_t_of_int_def
      fmul_def fadd_def round_to_double_at round_half_even_def)

lemma rounding_mass_exact:
  "MassAssembler2D_assemble_impl_with (\<lambda>x. x) rounding_mass [0, 0] [1, 1]
   = Some (126100793324470293 / 576460752303423488)"
  by (simp add: MassAssembler2D_assemble_impl_with_def
      axis_overlap_def rounding_mass_def Let_def c_int_def
      intersect_intervals_def make_intv_def combine_mass_2d_def slice_len_def size_t_of_int_def
      fmul_def fadd_def)

text \<open>
  C5, the claim as stated fails: in doubles \<open>assemble(i, j)\<close> and \<open>assemble(j, i)\<close> can
  differ. The kernel multiplies the factors of its first argument before those of its
  second and rounds every product. On \<open>rounding_mass\<close>, with \<open>x = (2\<^sup>2\<^sup>7 + 3) / 2\<^sup>2\<^sup>8\<close>,
  \<open>y = (2\<^sup>2\<^sup>7 + 1) / 2\<^sup>2\<^sup>8\<close> and \<open>z = 7 / 8\<close>, \<open>assemble(0, 3)\<close> is \<open>((x * y) * z) * 1\<close> and
  \<open>assemble(3, 0)\<close> is \<open>((z * 1) * x) * y\<close>, and the two roundings are one unit in the
  last place apart.
\<close>

theorem C5_rounding_counterexample:
  "assemble2 (MassAssembler2D_assemble_impl rounding_mass) rounding_mass 0 3
     = Some (3940649791389697 / 18014398509481984)
   \<and> assemble2 (MassAssembler2D_assemble_impl rounding_mass) rounding_mass 3 0
     = Some (7881299582779393 / 36028797018963968)
   \<and> assemble2 (MassAssembler2D_assemble_impl rounding_mass) rounding_mass 0 3
     \<noteq> assemble2 (MassAssembler2D_assemble_impl rounding_mass) rounding_mass 3 0"
proof -
  have a: "assemble2 (MassAssembler2D_assemble_impl rounding_mass) rounding_mass 0 3
     = Some (3940649791389697 / 18014398509481984)"
    unfolding assemble2_def rounding_mass_seq option.case by (rule rounding_mass_upper)
  have b: "assemble2 (MassAssembler2D_assemble_impl rounding_mass) rounding_mass 3 0
     = Some (7881299582779393 / 36028797018963968)"
    unfolding assemble2_def rounding_mass_seq option.case by (rule rounding_mass_lower)
  have c: "assemble2 (MassAssembler2D_assemble_impl rounding_mass) rounding_mass 0 3
     \<noteq> assemble2 (MassAssembler2D_assemble_impl rounding_mass) rounding_mass 3 0"
    unfolding a b by simp
  from a b c show ?thesis by (intro conjI)
qed

text \<open>
  C5, as amended: \<open>assemble(i, j)\<close> and \<open>assemble(j, i)\<close> are the same expression with the
  factors of the two dofs exchanged, and they are equal when that expression is evaluated
  in exact arithmetic: for every pair of scalar dof indices, for the two mass assemblers
  whatever their tensors hold, and for the two stiffness assemblers as their constructors
  build them, where the metric \<open>B\<close> is \<open>matmatT(geo_jacinv)\<close> scaled by the weights and so
  symmetric at every node. In doubles the two results need not be equal.
\<close>

theorem C5_assemble_symmetric:
  "assemble2 (MassAssembler2D_assemble_impl_with (\<lambda>x. x) masm) masm i j
     = assemble2 (MassAssembler2D_assemble_impl_with (\<lambda>x. x) masm) masm j i
   \<and> assemble3 (MassAssembler3D_assemble_impl_with (\<lambda>x. x) masm) masm i j
     = assemble3 (MassAssembler3D_assemble_impl_with (\<lambda>x. x) masm) masm j i
   \<and> (StiffnessAssembler2D_init ext kvs geo = Inr sasm2 \<longrightarrow>
        assemble2 (StiffnessAssembler2D_assemble_impl_with (\<lambda>x. x) sasm2) sasm2 i j
        = assemble2 (StiffnessAssembler2D_assemble_impl_with (\<lambda>x. x) sasm2) sasm2 j i)
   \<and> (StiffnessAssembler3D_init ext kvs geo = Inr sasm3 \<longrightarrow>
        assemble3 (StiffnessAssembler3D_assemble_impl_with (\<lambda>x. x) sasm3) sasm3 i j
        = assemble3 (StiffnessAssembler3D_assemble_impl_with (\<lambda>x. x) sasm3) sasm3 j i)"
proof (intro conjI impI)
  show "assemble2 (MassAssembler2D_assemble_impl_with (\<lambda>x. x) masm) masm i j
     = assemble2 (MassAssembler2D_assemble_impl_with (\<lambda>x. x) masm) masm j i"
    by (rule assemble2_sym) (rule mass2d_impl_sym)
  show "assemble3 (MassAssembler3D_assemble_impl_with (\<lambda>x. x) masm) masm i j
     = assemble3 (MassAssembler3D_assemble_impl_with (\<lambda>x. x) masm) masm j i"
    by (rule assemble3_sym) (rule mass3d_impl_sym)
next
  assume a: "StiffnessAssembler2D_init ext kvs geo = Inr sasm2"
  show "assemble2 (StiffnessAssembler2D_assemble_impl_with (\<lambda>x. x) sasm2) sasm2 i j
        = assemble2 (StiffnessAssembler2D_assemble_impl_with (\<lambda>x. x) sasm2) sasm2 j i"
    by (rule assemble2_sym) (rule stiff2d_impl_sym, rule stiff2d_init_B_sym[OF a])
next
  assume a: "StiffnessAssembler3D_init ext kvs geo = Inr sasm3"
  show "assemble3 (StiffnessAssembler3D_assemble_impl_with (\<lambda>x. x) sasm3) sasm3 i j
        = assemble3 (StiffnessAssembler3D_assemble_impl_with (\<lambda>x. x) sasm3) sasm3 j i"
    by (rule assemble3_sym) (rule stiff3d_impl_sym; rule stiff3d_init_B_sym[OF a])
qed

lemma overlap_built:
  "StiffnessAssembler2D_init overlap_collaborators [overlap_kv, overlap_kv] (sheared_geometry 2)
   = Inr overlap_stiffness_2d"
  "StiffnessAssembler3D_init overlap_collaborators [overlap_kv, overlap_kv, overlap_kv]
     (sheared_geometry 3) = Inr overlap_stiffness_3d"
  by (simp_all add: overlap_stiffness_2d_def overlap_stiffness_3d_def
      StiffnessAssembler2D_init_def StiffnessAssembler3D_init_def base_init_3d_def
      sheared_geometry_def Let_def case_prod_beta)

lemma overlap_values:
  "assemble2 (MassAssembler2D_assemble_impl_with (\<lambda>x. x) rounding_mass) rounding_mass 0 3
   = Some (126100793324470293 / 576460752303423488)"
  "assemble3 (MassAssembler3D_assemble_impl_with (\<lambda>x. x) overlap_mass_3d) overlap_mass_3d 1 6
   = Some (27 / 512)"
  "assemble2 (StiffnessAssembler2D_assemble_impl_with (\<lambda>x. x) overlap_stiffness_2d)
     overlap_stiffness_2d 0 3 = Some (- 11 / 64)"
  "assemble3 (StiffnessAssembler3D_assemble_impl_with (\<lambda>x. x) overlap_stiffness_3d)
     overlap_stiffness_3d 1 6 = Some (- 561 / 2048)"
proof -
  show "assemble2 (MassAssembler2D_assemble_impl_with (\<lambda>x. x) rounding_mass) rounding_mass 0 3
   = Some (126100793324470293 / 576460752303423488)"
    unfolding assemble2_def rounding_mass_seq option.case by (rule rounding_mass_exact)
  show "assemble3 (MassAssembler3D_assemble_impl_with (\<lambda>x. x) overlap_mass_3d) overlap_mass_3d 1 6
   = Some (27 / 512)"
    by (simp add: overlap_mass_3d_def MassAssembler3D_init_def base_init_3d_def base_nqp_def
        sheared_geometry_def overlap_kv_def overlap_collaborators_def Let_def case_prod_beta
        assemble3_def from_seq3_def MassAssembler3D_assemble_impl_with_def
        axis_overlap_def c_int_def intersect_intervals_def make_intv_def combine_mass_3d_def
        slice_len_def size_t_of_int_def fmul_def fadd_def determinants_3x3_def upt_rec)
  show "assemble2 (StiffnessAssembler2D_assemble_impl_with (\<lambda>x. x) overlap_stiffness_2d)
     overlap_stiffness_2d 0 3 = Some (- 11 / 64)"
    by (simp add: overlap_stiffness_2d_def StiffnessAssembler2D_init_def base_init_2d_def
        base_nqp_def sheared_geometry_def overlap_kv_def overlap_collaborators_def Let_def
        case_prod_beta assemble2_def from_seq2_def StiffnessAssembler2D_assemble_impl_with_def
        axis_overlap_def c_int_def intersect_intervals_def make_intv_def combine_stiff_2d_def
        slice_len_def size_t_of_int_def fmul_def fadd_def det_and_inv_2x2_def matmatT_2x2_def
        upt_rec)
  show "assemble3 (StiffnessAssembler3D_assemble_impl_with (\<lambda>x. x) overlap_stiffness_3d)
     overlap_stiffness_3d 1 6 = Some (- 561 / 2048)"
    by (simp add: overlap_stiffness_3d_def StiffnessAssembler3D_init_def base_init_3d_def
        base_nqp_def sheared_geometry_def overlap_kv_def overlap_collaborators_def Let_def
        case_prod_beta assemble3_def from_seq3_def StiffnessAssembler3D_assemble_impl_with_def
        axis_overlap_def c_int_def intersect_intervals_def make_intv_def combine_stiff_3d_def
        slice_len_def size_t_of_int_def fmul_def fadd_def det_and_inv_3x3_def matmatT_3x3_def
        upt_rec)
qed

theorem C5_assemble_symmetric_witness:
  "assemble2 (MassAssembler2D_assemble_impl_with (\<lambda>x. x) rounding_mass) rounding_mass 0 3
     = assemble2 (MassAssembler2D_assemble_impl_with (\<lambda>x. x) rounding_mass) rounding_mass 3 0
   \<and> assemble2 (MassAssembler2D_assemble_impl_with (\<lambda>x. x) rounding_mass) rounding_mass 0 3
     = Some (126100793324470293 / 576460752303423488)
   \<and> assemble3 (MassAssembler3D_assemble_impl_with (\<lambda>x. x) overlap_mass_3d) overlap_mass_3d 1 6
     = assemble3 (MassAssembler3D_assemble_impl_with (\<lambda>x. x) overlap_mass_3d) overlap_mass_3d 6 1
   \<and> assemble3 (MassAssembler3D_assemble_impl_with (\<lambda>x. x) overlap_mass_3d) overlap_mass_3d 1 6
     = Some (27 / 512)
   \<and> StiffnessAssembler2D_init overlap_collaborators [overlap_kv, overlap_kv] (sheared_geometry 2)
     = Inr overlap_stiffness_2d
   \<and> assemble2 (StiffnessAssembler2D_assemble_impl_with (\<lambda>x. x) overlap_stiffness_2d)
        overlap_stiffness_2d 0 3
     = assemble2 (StiffnessAssembler2D_assemble_impl_with (\<lambda>x. x) overlap_stiffness_2d)
        overlap_stiffness_2d 3 0
   \<and> assemble2 (StiffnessAssembler2D_assemble_impl_with (\<lambda>x. x) overlap_stiffness_2d)
        overlap_stiffness_2d 0 3 = Some (- 11 / 64)
   \<and> StiffnessAssembler3D_init overlap_collaborators [overlap_kv, overlap_kv, overlap_kv]
        (sheared_geometry 3) = Inr overlap_stiffness_3d
   \<and> assemble3 (StiffnessAssembler3D_assemble_impl_with (\<lambda>x. x) overlap_stiffness_3d)
        overlap_stiffness_3d 1 6
     = assemble3 (StiffnessAssembler3D_assemble_impl_with (\<lambda>x. x) overlap_stiffness_3d)
        overlap_stiffness_3d 6 1
   \<and> assemble3 (StiffnessAssembler3D_assemble_impl_with (\<lambda>x. x) overlap_stiffness_3d)
        overlap_stiffness_3d 1 6 = Some (- 561 / 2048)"
proof -
  note two = C5_assemble_symmetric[where masm = rounding_mass and i = 0 and j = 3
      and ext = overlap_collaborators and kvs = "[overlap_kv, overlap_kv]"
      and geo = "sheared_geometry 2" and ?sasm2.0 = overlap_stiffness_2d]
  note three = C5_assemble_symmetric[where masm = overlap_mass_3d and i = 1 and j = 6
      and ext = overlap_collaborators and kvs = "[overlap_kv, overlap_kv, overlap_kv]"
      and geo = "sheared_geometry 3" and ?sasm3.0 = overlap_stiffness_3d]
  have m2: "assemble2 (MassAssembler2D_assemble_impl_with (\<lambda>x. x) rounding_mass) rounding_mass 0 3
     = assemble2 (MassAssembler2D_assemble_impl_with (\<lambda>x. x) rounding_mass) rounding_mass 3 0"
    using two by blast
  have m3: "assemble3 (MassAssembler3D_assemble_impl_with (\<lambda>x. x) overlap_mass_3d) overlap_mass_3d 1 6
     = assemble3 (MassAssembler3D_assemble_impl_with (\<lambda>x. x) overlap_mass_3d) overlap_mass_3d 6 1"
    using three by blast
  have s2: "assemble2 (StiffnessAssembler2D_assemble_impl_with (\<lambda>x. x) overlap_stiffness_2d)
        overlap_stiffness_2d 0 3
     = assemble2 (StiffnessAssembler2D_assemble_impl_with (\<lambda>x. x) overlap_stiffness_2d)
        overlap_stiffness_2d 3 0"
    using two overlap_built(1) by blast
  have s3: "assemble3 (StiffnessAssembler3D_assemble_impl_with (\<lambda>x. x) overlap_stiffness_3d)
        overlap_stiffness_3d 1 6
     = assemble3 (StiffnessAssembler3D_assemble_impl_with (\<lambda>x. x) overlap_stiffness_3d)
        overlap_stiffness_3d 6 1"
    using three overlap_built(2) by blast
  show ?thesis
    by (intro conjI m2 m3 s2 s3 overlap_built overlap_values)
qed

subsection \<open>Construction and the Jacobian\<close>

text \<open>
  C6, the claim as stated fails: the constructors accept a geometry whose Jacobian is
  singular at every quadrature node. \<open>MassAssembler2D\<close> is built, with the weight 0 at
  the node; \<open>StiffnessAssembler2D\<close> is built too.
\<close>

theorem C6_singular_jacobian_counterexample:
  "determinants_2x2
       (constructor_jacobian example_collaborators [example_kv, example_kv] 1
          (singular_geometry 2))
       [0, 0] = 0
   \<and> \<not> isl (MassAssembler2D_init example_collaborators [example_kv, example_kv] (singular_geometry 2))
   \<and> nqp (projr (MassAssembler2D_init example_collaborators [example_kv, example_kv]
                  (singular_geometry 2))) = 1
   \<and> geo_weights
        (projr (MassAssembler2D_init example_collaborators [example_kv, example_kv]
                 (singular_geometry 2)))
        [0, 0] = 0
   \<and> \<not> isl (StiffnessAssembler2D_init example_collaborators [example_kv, example_kv]
              (singular_geometry 2))"
  by (simp add: MassAssembler2D_init_def StiffnessAssembler2D_init_def base_init_2d_def
      base_nqp_def example_kv_def singular_geometry_def
      determinants_2x2_def constructor_jacobian_def Let_def case_prod_beta)

text \<open>
  C6, as amended: the values of the Jacobian never make a constructor fail. Whether one
  of the four constructors fails is the same for two geometries of the same dimension,
  whatever their Jacobians are; with a geometry of the dimension of the assembler and
  as many knot vectors it returns an assembler. In a mass assembler the weight at a
  quadrature node is the product of the quadrature weights and the absolute determinant,
  so a zero determinant at a node is absorbed as the weight 0 at that node.
\<close>

theorem C6_construction_ignores_jacobian:
  "(geo_dim geo' = geo_dim geo \<longrightarrow>
      isl (MassAssembler2D_init ext kvs geo') = isl (MassAssembler2D_init ext kvs geo)
      \<and> isl (StiffnessAssembler2D_init ext kvs geo') = isl (StiffnessAssembler2D_init ext kvs geo)
      \<and> isl (MassAssembler3D_init ext kvs geo') = isl (MassAssembler3D_init ext kvs geo)
      \<and> isl (StiffnessAssembler3D_init ext kvs geo') = isl (StiffnessAssembler3D_init ext kvs geo))
   \<and> (geo_dim geo = 2 \<and> length kvs = 2 \<longrightarrow>
        \<not> isl (MassAssembler2D_init ext kvs geo) \<and> \<not> isl (StiffnessAssembler2D_init ext kvs geo))
   \<and> (geo_dim geo = 3 \<and> length kvs = 3 \<longrightarrow>
        \<not> isl (MassAssembler3D_init ext kvs geo) \<and> \<not> isl (StiffnessAssembler3D_init ext kvs geo))
   \<and> (MassAssembler2D_init ext kvs geo = Inr masm2
        \<and> determinants_2x2 (constructor_jacobian ext kvs (nqp masm2) geo) q = 0
       \<longrightarrow> geo_weights masm2 q = 0)
   \<and> (MassAssembler3D_init ext kvs geo = Inr masm3
        \<and> determinants_3x3 (constructor_jacobian ext kvs (nqp masm3) geo) q = 0
       \<longrightarrow> geo_weights masm3 q = 0)"
proof (intro conjI impI)
  assume d: "geo_dim geo' = geo_dim geo"
  show "isl (MassAssembler2D_init ext kvs geo') = isl (MassAssembler2D_init ext kvs geo)"
    using d by (simp add: MassAssembler2D_init_def Let_def case_prod_beta)
  show "isl (StiffnessAssembler2D_init ext kvs geo') = isl (StiffnessAssembler2D_init ext kvs geo)"
    using d by (simp add: StiffnessAssembler2D_init_def Let_def case_prod_beta)
  show "isl (MassAssembler3D_init ext kvs geo') = isl (MassAssembler3D_init ext kvs geo)"
    using d by (simp add: MassAssembler3D_init_def Let_def case_prod_beta split: sum.splits)
  show "isl (StiffnessAssembler3D_init ext kvs geo') = isl (StiffnessAssembler3D_init ext kvs geo)"
    using d by (simp add: StiffnessAssembler3D_init_def Let_def case_prod_beta split: sum.splits)
next
  assume "geo_dim geo = 2 \<and> length kvs = 2"
  then show "\<not> isl (MassAssembler2D_init ext kvs geo)"
    by (simp add: MassAssembler2D_init_def Let_def case_prod_beta)
next
  assume "geo_dim geo = 2 \<and> length kvs = 2"
  then show "\<not> isl (StiffnessAssembler2D_init ext kvs geo)"
    by (simp add: StiffnessAssembler2D_init_def Let_def case_prod_beta)
next
  assume "geo_dim geo = 3 \<and> length kvs = 3"
  then show "\<not> isl (MassAssembler3D_init ext kvs geo)"
    by (simp add: MassAssembler3D_init_def base_init_3d_def Let_def case_prod_beta)
next
  assume "geo_dim geo = 3 \<and> length kvs = 3"
  then show "\<not> isl (StiffnessAssembler3D_init ext kvs geo)"
    by (simp add: StiffnessAssembler3D_init_def base_init_3d_def Let_def case_prod_beta)
next
  assume "MassAssembler2D_init ext kvs geo = Inr masm2
        \<and> determinants_2x2 (constructor_jacobian ext kvs (nqp masm2) geo) q = 0"
  then show "geo_weights masm2 q = 0"
    by (auto simp: MassAssembler2D_init_def constructor_jacobian_def Let_def case_prod_beta
        split: if_splits)
next
  assume "MassAssembler3D_init ext kvs geo = Inr masm3
        \<and> determinants_3x3 (constructor_jacobian ext kvs (nqp masm3) geo) q = 0"
  then show "geo_weights masm3 q = 0"
    by (auto simp: MassAssembler3D_init_def constructor_jacobian_def Let_def case_prod_beta
        split: if_splits sum.splits)
qed

lemma singular_built:
  "MassAssembler2D_init example_collaborators [example_kv, example_kv] (singular_geometry 2)
   = Inr (projr (MassAssembler2D_init example_collaborators [example_kv, example_kv]
                  (singular_geometry 2)))"
  "MassAssembler3D_init example_collaborators [example_kv, example_kv, example_kv]
     (singular_geometry 3)
   = Inr (projr (MassAssembler3D_init example_collaborators [example_kv, example_kv, example_kv]
                  (singular_geometry 3)))"
  "determinants_2x2
     (constructor_jacobian example_collaborators [example_kv, example_kv]
        (nqp (projr (MassAssembler2D_init example_collaborators [example_kv, example_kv]
                       (singular_geometry 2))))
        (singular_geometry 2)) [1, 0] = 0"
  "determinants_3x3
     (constructor_jacobian example_collaborators [example_kv, example_kv, example_kv]
        (nqp (projr (MassAssembler3D_init example_collaborators
                       [example_kv, example_kv, example_kv] (singular_geometry 3))))
        (singular_geometry 3)) [1, 0, 1] = 0"
  "geo_dim (example_geometry 2) = geo_dim (singular_geometry 2)"
  "geo_dim (example_geometry 3) = geo_dim (singular_geometry 3)"
  "geo_dim (singular_geometry 2) = 2 \<and> length [example_kv, example_kv] = 2"
  "geo_dim (singular_geometry 3) = 3 \<and> length [example_kv, example_kv, example_kv] = 3"
  by (simp_all add: MassAssembler2D_init_def MassAssembler3D_init_def base_init_3d_def
      singular_geometry_def example_geometry_def determinants_2x2_def determinants_3x3_def
      constructor_jacobian_def Let_def case_prod_beta)

theorem C6_construction_ignores_jacobian_witness:
  "geo_dim (example_geometry 2) = geo_dim (singular_geometry 2)
   \<and> isl (MassAssembler2D_init example_collaborators [example_kv, example_kv]
            (example_geometry 2))
     = isl (MassAssembler2D_init example_collaborators [example_kv, example_kv]
            (singular_geometry 2))
   \<and> (geo_dim (singular_geometry 2) = 2 \<and> length [example_kv, example_kv] = 2)
   \<and> \<not> isl (MassAssembler2D_init example_collaborators [example_kv, example_kv]
              (singular_geometry 2))
   \<and> \<not> isl (StiffnessAssembler2D_init example_collaborators [example_kv, example_kv]
              (singular_geometry 2))
   \<and> (geo_dim (singular_geometry 3) = 3 \<and> length [example_kv, example_kv, example_kv] = 3)
   \<and> \<not> isl (MassAssembler3D_init example_collaborators [example_kv, example_kv, example_kv]
              (singular_geometry 3))
   \<and> \<not> isl (StiffnessAssembler3D_init example_collaborators
              [example_kv, example_kv, example_kv] (singular_geometry 3))
   \<and> determinants_2x2
        (constructor_jacobian example_collaborators [example_kv, example_kv]
           (nqp (projr (MassAssembler2D_init example_collaborators [example_kv, example_kv]
                          (singular_geometry 2))))
           (singular_geometry 2)) [1, 0] = 0
   \<and> geo_weights (projr (MassAssembler2D_init example_collaborators [example_kv, example_kv]
                           (singular_geometry 2))) [1, 0] = 0
   \<and> determinants_3x3
        (constructor_jacobian example_collaborators [example_kv, example_kv, example_kv]
           (nqp (projr (MassAssembler3D_init example_collaborators
                          [example_kv, example_kv, example_kv] (singular_geometry 3))))
           (singular_geometry 3)) [1, 0, 1] = 0
   \<and> geo_weights (projr (MassAssembler3D_init example_collaborators
                           [example_kv, example_kv, example_kv] (singular_geometry 3)))
        [1, 0, 1] = 0"
proof -
  note two = C6_construction_ignores_jacobian[where ext = example_collaborators
      and kvs = "[example_kv, example_kv]" and geo = "singular_geometry 2"
      and geo' = "example_geometry 2"
      and ?masm2.0 = "projr (MassAssembler2D_init example_collaborators [example_kv, example_kv] (singular_geometry 2))" and q = "[1, 0]"]
  note three = C6_construction_ignores_jacobian[where ext = example_collaborators
      and kvs = "[example_kv, example_kv, example_kv]" and geo = "singular_geometry 3"
      and geo' = "example_geometry 3"
      and ?masm3.0 = "projr (MassAssembler3D_init example_collaborators [example_kv, example_kv, example_kv] (singular_geometry 3))" and q = "[1, 0, 1]"]
  have a: "isl (MassAssembler2D_init example_collaborators [example_kv, example_kv]
            (example_geometry 2))
     = isl (MassAssembler2D_init example_collaborators [example_kv, example_kv]
            (singular_geometry 2))"
    using two singular_built(5) by blast
  have b: "\<not> isl (MassAssembler2D_init example_collaborators [example_kv, example_kv]
              (singular_geometry 2))"
    "\<not> isl (StiffnessAssembler2D_init example_collaborators [example_kv, example_kv]
              (singular_geometry 2))"
    using two singular_built(7) by blast+
  have c: "\<not> isl (MassAssembler3D_init example_collaborators [example_kv, example_kv, example_kv]
              (singular_geometry 3))"
    "\<not> isl (StiffnessAssembler3D_init example_collaborators
              [example_kv, example_kv, example_kv] (singular_geometry 3))"
    using three singular_built(8) by blast+
  have d: "geo_weights (projr (MassAssembler2D_init example_collaborators [example_kv, example_kv]
                           (singular_geometry 2))) [1, 0] = 0"
    using two singular_built(1) singular_built(3) by blast
  have e: "geo_weights (projr (MassAssembler3D_init example_collaborators
                           [example_kv, example_kv, example_kv] (singular_geometry 3)))
        [1, 0, 1] = 0"
    using three singular_built(2) singular_built(4) by blast
  show ?thesis
    by (intro conjI a b c d e singular_built(3) singular_built(4) singular_built(5)
        singular_built(7) singular_built(8))
qed

subsection \<open>The tile accumulator\<close>

lemma list_ex_differs_iff:
  assumes "n \<le> length xs" "n \<le> length ys"
  shows "list_ex (\<lambda>k. xs ! k \<noteq> ys ! k) [0..<n] \<longleftrightarrow> take n xs \<noteq> take n ys"
proof -
  have "take n xs = take n ys \<longleftrightarrow> (\<forall>k<n. xs ! k = ys ! k)"
    using assms by (auto simp: list_eq_iff_nth_eq)
  then show ?thesis by (auto simp: list_ex_iff)
qed

lemma index_changed_spec:
  assumes "nat (num_indices self) \<le> length (old_indices self)"
    and "nat (num_indices self) \<le> length row"
  shows "index_changed self row
         = Some (index_tuple (num_indices self) row \<noteq> index_tuple (num_indices self) (old_indices self),
                 self\<lparr>old_indices := index_tuple (num_indices self) row
                                        @ drop (nat (num_indices self)) (old_indices self)\<rparr>)"
proof (cases "index_tuple (num_indices self) row = index_tuple (num_indices self) (old_indices self)")
  case True
  then have "index_tuple (num_indices self) row @ drop (nat (num_indices self)) (old_indices self)
             = old_indices self"
    by (simp add: index_tuple_def)
  then have "self\<lparr>old_indices := index_tuple (num_indices self) row
                                        @ drop (nat (num_indices self)) (old_indices self)\<rparr> = self"
    by simp
  then show ?thesis
    using True assms list_ex_differs_iff[OF assms(2) assms(1)]
    by (simp add: index_changed_def index_tuple_def Let_def)
next
  case False
  then show ?thesis
    using assms list_ex_differs_iff[OF assms(2) assms(1)]
    by (simp add: index_changed_def index_tuple_def Let_def)
qed


lemma process_runs:
  assumes "nat (num_indices self) \<le> length (old_indices self)"
    and "list_all (\<lambda>row. nat (num_indices self) \<le> length row) rows"
    and "length vals = length rows"
    and "- 1 \<le> idx self \<and> nat (idx self + 1) \<le> length (result_buf self)"
    and "(case tuple_runs (num_indices self) rows vals of [] \<Rightarrow> True
          | (k, vs) # rest \<Rightarrow>
              if k = index_tuple (num_indices self) (old_indices self)
              then 0 \<le> idx self \<and> nat (idx self + 1) + length rest \<le> length (result_buf self)
              else nat (idx self + 1) + length rest + 1 \<le> length (result_buf self))"
  shows "\<exists>self'. process self rows vals = Some self'
          \<and> - 1 \<le> idx self' \<and> nat (idx self' + 1) \<le> length (result_buf self')
          \<and> result self' =
             (case tuple_runs (num_indices self) rows vals of [] \<Rightarrow> result self
              | (k, vs) # rest \<Rightarrow>
                  if k = index_tuple (num_indices self) (old_indices self)
                  then take (nat (idx self)) (result_buf self)
                       @ [foldl (+) (result_buf self ! nat (idx self)) vs]
                       @ map (\<lambda>r. run_sum (snd r)) rest
                  else result self @ map (\<lambda>r. run_sum (snd r)) ((k, vs) # rest))"
  using assms
proof (induction rows arbitrary: self vals)
  case Nil
  then show ?case by (simp add: tuple_runs_def)
next
  case (Cons row rows)
  from Cons.prems(3) obtain v vals1 where vals: "vals = v # vals1"
    and len': "length vals1 = length rows"
    by (cases vals) auto
  define ni where "ni = num_indices self"
  define key where "key = index_tuple ni row"
  define cur where "cur = index_tuple ni (old_indices self)"
  define buf where "buf = result_buf self"
  define rs' where "rs' = tuple_runs ni rows vals1"
  have rowlen: "nat ni \<le> length row" and rowslen: "list_all (\<lambda>row. nat ni \<le> length row) rows"
    using Cons.prems(2) by (simp_all add: ni_def)
  have oldlen: "nat ni \<le> length (old_indices self)" using Cons.prems(1) by (simp add: ni_def)
  have rs: "tuple_runs ni (row # rows) vals
            = (case rs' of [] \<Rightarrow> [(key, [v])]
               | (k', vs) # rest \<Rightarrow> if key = k' then (key, v # vs) # rest
                                     else (key, [v]) # (k', vs) # rest)"
    unfolding tuple_runs_def vals key_def rs'_def by simp
  define old' where "old' = key @ drop (nat ni) (old_indices self)"
  have ic: "index_changed self row = Some (key \<noteq> cur, self\<lparr>old_indices := old'\<rparr>)"
    using index_changed_spec[of self row] oldlen rowlen
    by (simp add: ni_def key_def cur_def old'_def)
  have keylen: "length key = nat ni" using rowlen by (simp add: key_def index_tuple_def)
  have old'len: "nat ni \<le> length old'" by (simp add: old'_def keylen)
  have old'key: "index_tuple ni old' = key" by (simp add: old'_def index_tuple_def keylen)
  have cap: "(case tuple_runs ni (row # rows) vals of [] \<Rightarrow> True
          | (k, vs) # rest \<Rightarrow>
              if k = cur
              then 0 \<le> idx self \<and> nat (idx self + 1) + length rest \<le> length buf
              else nat (idx self + 1) + length rest + 1 \<le> length buf)"
    using Cons.prems(5) unfolding ni_def cur_def buf_def .
  have idx: "- 1 \<le> idx self" using Cons.prems(4) by simp
  show ?case
  proof (cases "key = cur")
    case True
    \<comment> \<open>the tuple did not change: the value is added at the cursor\<close>
    have c0: "0 \<le> idx self" and c1: "nat (idx self) < length buf"
      using cap True unfolding rs by (auto split: list.splits if_splits)
    define self1 where
      "self1 = self\<lparr>old_indices := old', result_buf := buf[nat (idx self) := buf ! nat (idx self) + v]\<rparr>"
    have c1i: "idx self < int (length (result_buf self))" using c0 c1 by (simp add: buf_def)
    have step: "process self (row # rows) vals = process self1 rows vals1"
      using ic True c0 c1i by (simp add: vals self1_def buf_def Let_def)
    have p1: "nat (num_indices self1) \<le> length (old_indices self1)"
      using old'len by (simp add: self1_def ni_def)
    have p2: "list_all (\<lambda>row. nat (num_indices self1) \<le> length row) rows"
      using rowslen by (simp add: self1_def ni_def)
    have p4: "- 1 \<le> idx self1 \<and> nat (idx self1 + 1) \<le> length (result_buf self1)"
      using idx c0 c1 by (simp add: self1_def buf_def)
    have f1: "num_indices self1 = ni" "index_tuple ni (old_indices self1) = key"
      "idx self1 = idx self" "length (result_buf self1) = length buf"
      "result_buf self1 ! nat (idx self) = buf ! nat (idx self) + v"
      "take (nat (idx self)) (result_buf self1) = take (nat (idx self)) buf"
      "result self1 = take (nat (idx self)) buf @ [buf ! nat (idx self) + v]"
      using c0 c1 old'key
      by (simp_all add: self1_def ni_def result_def nat_add_distrib take_Suc_conv_app_nth)
    have p5: "(case tuple_runs (num_indices self1) rows vals1 of [] \<Rightarrow> True
          | (k, vs) # rest \<Rightarrow>
              if k = index_tuple (num_indices self1) (old_indices self1)
              then 0 \<le> idx self1 \<and> nat (idx self1 + 1) + length rest \<le> length (result_buf self1)
              else nat (idx self1 + 1) + length rest + 1 \<le> length (result_buf self1))"
      using cap True c0 unfolding rs f1 rs'_def[symmetric]
      by (auto split: list.splits if_splits)
    from Cons.IH[OF p1 p2 len' p4 p5] obtain self' where
      s': "process self1 rows vals1 = Some self'"
      and b': "- 1 \<le> idx self' \<and> nat (idx self' + 1) \<le> length (result_buf self')"
      and r': "result self' =
             (case rs' of [] \<Rightarrow> result self1
              | (k, vs) # rest \<Rightarrow>
                  if k = key
                  then take (nat (idx self)) (result_buf self1)
                       @ [foldl (+) (result_buf self1 ! nat (idx self)) vs]
                       @ map (\<lambda>r. run_sum (snd r)) rest
                  else result self1 @ map (\<lambda>r. run_sum (snd r)) ((k, vs) # rest))"
      unfolding f1 rs'_def[symmetric] by blast
    have "result self' =
             (case tuple_runs ni (row # rows) vals of [] \<Rightarrow> result self
              | (k, vs) # rest \<Rightarrow>
                  if k = cur
                  then take (nat (idx self)) buf @ [foldl (+) (buf ! nat (idx self)) vs]
                       @ map (\<lambda>r. run_sum (snd r)) rest
                  else result self @ map (\<lambda>r. run_sum (snd r)) ((k, vs) # rest))"
      unfolding r' rs f1 using True by (auto split: list.splits)
    then have "result self' =
             (case tuple_runs (num_indices self) (row # rows) vals of [] \<Rightarrow> result self
              | (k, vs) # rest \<Rightarrow>
                  if k = index_tuple (num_indices self) (old_indices self)
                  then take (nat (idx self)) (result_buf self)
                       @ [foldl (+) (result_buf self ! nat (idx self)) vs]
                       @ map (\<lambda>r. run_sum (snd r)) rest
                  else result self @ map (\<lambda>r. run_sum (snd r)) ((k, vs) # rest))"
      unfolding ni_def cur_def buf_def .
    then show ?thesis
      using step s' b' by simp
  next
    case False
    \<comment> \<open>the tuple changed: the cursor advances and the value starts a new entry\<close>
    have c1: "nat (idx self + 1) < length buf"
      using cap False unfolding rs by (auto split: list.splits if_splits)
    define self1 where
      "self1 = self\<lparr>old_indices := old', idx := idx self + 1,
                     result_buf := buf[nat (idx self + 1) := v]\<rparr>"
    have c1i: "0 \<le> idx self + 1" "idx self + 1 < int (length (result_buf self))"
      using idx c1 by (simp_all add: buf_def)
    have step: "process self (row # rows) vals = process self1 rows vals1"
      using ic False c1i by (simp add: vals self1_def buf_def Let_def)
    have p1: "nat (num_indices self1) \<le> length (old_indices self1)"
      using old'len by (simp add: self1_def ni_def)
    have p2: "list_all (\<lambda>row. nat (num_indices self1) \<le> length row) rows"
      using rowslen by (simp add: self1_def ni_def)
    have p4: "- 1 \<le> idx self1 \<and> nat (idx self1 + 1) \<le> length (result_buf self1)"
      using idx c1 by (simp add: self1_def buf_def)
    have n1: "nat (idx self + 1 + 1) = Suc (nat (idx self + 1))" using idx by simp
    have n2: "nat (2 + idx self) = Suc (nat (idx self + 1))" using idx by simp
    have f1: "num_indices self1 = ni" "index_tuple ni (old_indices self1) = key"
      "idx self1 = idx self + 1" "length (result_buf self1) = length buf"
      "result_buf self1 ! nat (idx self + 1) = v"
      "take (nat (idx self + 1)) (result_buf self1) = result self"
      "result self1 = result self @ [v]"
      using c1 old'key idx
      by (simp_all add: self1_def ni_def result_def n2 take_Suc_conv_app_nth buf_def)
    have p5: "(case tuple_runs (num_indices self1) rows vals1 of [] \<Rightarrow> True
          | (k, vs) # rest \<Rightarrow>
              if k = index_tuple (num_indices self1) (old_indices self1)
              then 0 \<le> idx self1 \<and> nat (idx self1 + 1) + length rest \<le> length (result_buf self1)
              else nat (idx self1 + 1) + length rest + 1 \<le> length (result_buf self1))"
      using cap False idx unfolding rs f1 rs'_def[symmetric] n1
      by (auto split: list.splits if_splits)
    from Cons.IH[OF p1 p2 len' p4 p5] obtain self' where
      s': "process self1 rows vals1 = Some self'"
      and b': "- 1 \<le> idx self' \<and> nat (idx self' + 1) \<le> length (result_buf self')"
      and r': "result self' =
             (case rs' of [] \<Rightarrow> result self1
              | (k, vs) # rest \<Rightarrow>
                  if k = key
                  then take (nat (idx self + 1)) (result_buf self1)
                       @ [foldl (+) (result_buf self1 ! nat (idx self + 1)) vs]
                       @ map (\<lambda>r. run_sum (snd r)) rest
                  else result self1 @ map (\<lambda>r. run_sum (snd r)) ((k, vs) # rest))"
      unfolding f1 rs'_def[symmetric] by blast
    have "result self' =
             (case tuple_runs ni (row # rows) vals of [] \<Rightarrow> result self
              | (k, vs) # rest \<Rightarrow>
                  if k = cur
                  then take (nat (idx self)) buf @ [foldl (+) (buf ! nat (idx self)) vs]
                       @ map (\<lambda>r. run_sum (snd r)) rest
                  else result self @ map (\<lambda>r. run_sum (snd r)) ((k, vs) # rest))"
      unfolding r' rs f1 using False by (auto split: list.splits)
    then have "result self' =
             (case tuple_runs (num_indices self) (row # rows) vals of [] \<Rightarrow> result self
              | (k, vs) # rest \<Rightarrow>
                  if k = index_tuple (num_indices self) (old_indices self)
                  then take (nat (idx self)) (result_buf self)
                       @ [foldl (+) (result_buf self ! nat (idx self)) vs]
                       @ map (\<lambda>r. run_sum (snd r)) rest
                  else result self @ map (\<lambda>r. run_sum (snd r)) ((k, vs) # rest))"
      unfolding ni_def cur_def buf_def .
    then show ?thesis
      using step s' b' by simp
  qed
qed


lemma runs_head: "\<exists>vs rest. runs ((k, v) # xs) = (k, vs) # rest"
  by (cases "runs xs") auto




lemma tuple_runs_head:
  assumes "length vals = length (row # rows)"
  shows "\<exists>vs rest. tuple_runs n (row # rows) vals = (index_tuple n row, vs) # rest"
proof -
  from assms obtain v vals1 where "vals = v # vals1" by (cases vals) auto
  then show ?thesis using runs_head[of "index_tuple n row" v] by (simp add: tuple_runs_def)
qed

lemma fresh_accumulator:
  assumes "MatrixEntryAccumulator_init n buf = Inr self"
  shows "idx self = - 1" "num_indices self = n" "result_buf self = buf"
    "old_indices self = replicate 16 0xffffffff"
    "index_tuple n (old_indices self) = sentinel_tuple n" "result self = []"
    "nat n \<le> length (old_indices self)"
  using assms
  by (auto simp: MatrixEntryAccumulator_init_def index_tuple_def sentinel_tuple_def result_def
      min_def split: if_splits)

lemma tuple_is_sentinel_iff:
  assumes "nat n \<le> length row"
  shows "index_tuple n row = sentinel_tuple n \<longleftrightarrow> (\<forall>k<nat n. row ! k = 0xffffffff)"
  using assms by (auto simp: index_tuple_def sentinel_tuple_def list_eq_iff_nth_eq)

lemma fresh_process_runs:
  assumes "MatrixEntryAccumulator_init n buf = Inr self"
    and "list_all (\<lambda>row. nat n \<le> length row) rows"
    and "length vals = length rows"
    and "rows \<noteq> [] \<longrightarrow> index_tuple n (hd rows) \<noteq> sentinel_tuple n"
    and "length (tuple_runs n rows vals) \<le> length buf"
  shows "\<exists>self'. process self rows vals = Some self'
           \<and> result self' = map (\<lambda>r. run_sum (snd r)) (tuple_runs n rows vals)
           \<and> int (length (result self')) = idx self' + 1"
proof -
  note f = fresh_accumulator[OF assms(1)]
  have p1: "nat (num_indices self) \<le> length (old_indices self)" using f by simp
  have p2: "list_all (\<lambda>row. nat (num_indices self) \<le> length row) rows"
    using assms(2) f by simp
  have p4: "- 1 \<le> idx self \<and> nat (idx self + 1) \<le> length (result_buf self)" using f by simp
  have p5: "(case tuple_runs (num_indices self) rows vals of [] \<Rightarrow> True
          | (k, vs) # rest \<Rightarrow>
              if k = index_tuple (num_indices self) (old_indices self)
              then 0 \<le> idx self \<and> nat (idx self + 1) + length rest \<le> length (result_buf self)
              else nat (idx self + 1) + length rest + 1 \<le> length (result_buf self))"
  proof (cases rows)
    case Nil
    then show ?thesis by (simp add: tuple_runs_def)
  next
    case (Cons row rows1)
    from tuple_runs_head[of vals row rows1 n] assms(3) Cons obtain vs rest where
      h: "tuple_runs n rows vals = (index_tuple n row, vs) # rest" by auto
    show ?thesis using h assms(4,5) Cons f by simp
  qed
  from process_runs[OF p1 p2 assms(3) p4 p5] obtain self' where
    s': "process self rows vals = Some self'"
    and b': "- 1 \<le> idx self' \<and> nat (idx self' + 1) \<le> length (result_buf self')"
    and r': "result self' =
             (case tuple_runs (num_indices self) rows vals of [] \<Rightarrow> result self
              | (k, vs) # rest \<Rightarrow>
                  if k = index_tuple (num_indices self) (old_indices self)
                  then take (nat (idx self)) (result_buf self)
                       @ [foldl (+) (result_buf self ! nat (idx self)) vs]
                       @ map (\<lambda>r. run_sum (snd r)) rest
                  else result self @ map (\<lambda>r. run_sum (snd r)) ((k, vs) # rest))"
    by blast
  have r: "result self' = map (\<lambda>r. run_sum (snd r)) (tuple_runs n rows vals)"
  proof (cases rows)
    case Nil
    then show ?thesis using r' f by (simp add: tuple_runs_def)
  next
    case (Cons row rows1)
    from tuple_runs_head[of vals row rows1 n] assms(3) Cons obtain vs rest where
      h: "tuple_runs n rows vals = (index_tuple n row, vs) # rest" by auto
    show ?thesis using r' h assms(4) Cons f by simp
  qed
  have l: "int (length (result self')) = idx self' + 1"
    using b' by (simp add: result_def)
  show ?thesis using s' r l by blast
qed





text \<open>
  C10: a newly constructed accumulator has the cursor \<open>-1\<close> and the tuple of
  \<open>0xffffffff\<close> as its current tuple. \<open>index_changed\<close> on the first row reports a change
  if and only if the row differs from \<open>0xffffffff\<close> in one of its first \<open>num_indices\<close>
  components; then the cursor advances to 0 and the value is written at index 0, and
  otherwise the value is written at index \<open>-1\<close>, outside the buffer. If no row's tuple
  is the sentinel and the buffer has at least as many places as the stream has runs,
  \<open>process\<close> performs no write out of bounds.
\<close>

theorem C10_sentinel_and_bounds:
  assumes "MatrixEntryAccumulator_init n buf = Inr self"
    and "list_all (\<lambda>row. nat n \<le> length row) (row # rows)"
    and "length vals = length rows"
  shows "idx self = - 1
     \<and> index_tuple n (old_indices self) = sentinel_tuple n
     \<and> (\<exists>self1. index_changed self row = Some ((\<exists>k<nat n. row ! k \<noteq> 0xffffffff), self1))
     \<and> ((\<exists>k<nat n. row ! k \<noteq> 0xffffffff) \<and> buf \<noteq> [] \<longrightarrow>
          (\<exists>self2. process self [row] [v] = Some self2 \<and> idx self2 = 0
             \<and> result_buf self2 = buf[0 := v]))
     \<and> ((\<forall>k<nat n. row ! k = 0xffffffff) \<longrightarrow> process self (row # rows) (v # vals) = None)
     \<and> (list_all (\<lambda>r. index_tuple n r \<noteq> sentinel_tuple n) (row # rows)
          \<and> length (tuple_runs n (row # rows) (v # vals)) \<le> length buf
        \<longrightarrow> process self (row # rows) (v # vals) \<noteq> None)"
proof -
  note f = fresh_accumulator[OF assms(1)]
  have rowlen: "nat n \<le> length row" using assms(2) by simp
  have sent: "index_tuple n row \<noteq> sentinel_tuple n \<longleftrightarrow> (\<exists>k<nat n. row ! k \<noteq> 0xffffffff)"
    using tuple_is_sentinel_iff[OF rowlen] by blast
  have ic: "index_changed self row
            = Some ((\<exists>k<nat n. row ! k \<noteq> 0xffffffff),
                    self\<lparr>old_indices := index_tuple n row @ drop (nat n) (old_indices self)\<rparr>)"
    using index_changed_spec[of self row] f rowlen sent by simp
  have a: "\<exists>self1. index_changed self row = Some ((\<exists>k<nat n. row ! k \<noteq> 0xffffffff), self1)"
    using ic by blast
  have b: "(\<exists>k<nat n. row ! k \<noteq> 0xffffffff) \<and> buf \<noteq> [] \<longrightarrow>
          (\<exists>self2. process self [row] [v] = Some self2 \<and> idx self2 = 0
             \<and> result_buf self2 = buf[0 := v])"
    using ic f by (auto simp: Let_def)
  have c: "(\<forall>k<nat n. row ! k = 0xffffffff) \<longrightarrow> process self (row # rows) (v # vals) = None"
    using ic f by (auto simp: Let_def)
  have d: "list_all (\<lambda>r. index_tuple n r \<noteq> sentinel_tuple n) (row # rows)
          \<and> length (tuple_runs n (row # rows) (v # vals)) \<le> length buf
        \<longrightarrow> process self (row # rows) (v # vals) \<noteq> None"
  proof
    assume h: "list_all (\<lambda>r. index_tuple n r \<noteq> sentinel_tuple n) (row # rows)
          \<and> length (tuple_runs n (row # rows) (v # vals)) \<le> length buf"
    have l: "length (v # vals) = length (row # rows)" using assms(3) by simp
    have s: "row # rows \<noteq> [] \<longrightarrow> index_tuple n (hd (row # rows)) \<noteq> sentinel_tuple n"
      using h by simp
    from fresh_process_runs[OF assms(1) assms(2) l s] h
    show "process self (row # rows) (v # vals) \<noteq> None" by auto
  qed
  show ?thesis using f(1) f(5) a b c d by blast
qed


theorem C10_sentinel_and_bounds_witness:
  "MatrixEntryAccumulator_init 1 [0, 0] = Inr (projr (MatrixEntryAccumulator_init 1 [0, 0]))
   \<and> list_all (\<lambda>row. nat 1 \<le> length row) ([7] # [[7], [8 :: u32]])
   \<and> length [2, 3 :: double] = length [[7], [8 :: u32]]
   \<and> idx (projr (MatrixEntryAccumulator_init 1 [0, 0])) = - 1
   \<and> (\<exists>k<nat 1. [7 :: u32] ! k \<noteq> 0xffffffff) \<and> [0, 0 :: double] \<noteq> []
   \<and> (\<exists>self2. process (projr (MatrixEntryAccumulator_init 1 [0, 0])) [[7]] [1] = Some self2 \<and> idx self2 = 0
          \<and> result_buf self2 = [0, 0][0 := 1])
   \<and> list_all (\<lambda>r. index_tuple 1 r \<noteq> sentinel_tuple 1) ([7] # [[7], [8]])
   \<and> length (tuple_runs 1 ([7] # [[7], [8]]) (1 # [2, 3])) \<le> length [0, 0 :: double]
   \<and> process (projr (MatrixEntryAccumulator_init 1 [0, 0])) ([7] # [[7], [8]]) (1 # [2, 3]) \<noteq> None
   \<and> list_all (\<lambda>row. nat 1 \<le> length row) ([0xffffffff] # [[7], [8 :: u32]])
   \<and> index_tuple 1 [0xffffffff] = sentinel_tuple 1
   \<and> process (projr (MatrixEntryAccumulator_init 1 [0, 0])) ([0xffffffff] # [[7], [8]]) (1 # [2, 3]) = None"
proof -
  have h1: "MatrixEntryAccumulator_init 1 [0, 0] = Inr (projr (MatrixEntryAccumulator_init 1 [0, 0]))"
    by (simp add: MatrixEntryAccumulator_init_def)
  have h2: "list_all (\<lambda>row. nat 1 \<le> length row) ([7] # [[7], [8 :: u32]])" by simp
  have h2': "list_all (\<lambda>row. nat 1 \<le> length row) ([0xffffffff] # [[7], [8 :: u32]])" by simp
  have h3: "length [2, 3 :: double] = length [[7], [8 :: u32]]" by simp
  have e1: "\<exists>k<nat 1. [7 :: u32] ! k \<noteq> 0xffffffff" by simp
  have e2: "[0, 0 :: double] \<noteq> []" by simp
  have e3: "list_all (\<lambda>r. index_tuple 1 r \<noteq> sentinel_tuple 1) ([7] # [[7], [8]])"
    by (simp add: index_tuple_def sentinel_tuple_def)
  have e4: "length (tuple_runs 1 ([7] # [[7], [8]]) (1 # [2, 3])) \<le> length [0, 0 :: double]"
    by (simp add: tuple_runs_def index_tuple_def)
  have e5: "index_tuple 1 [0xffffffff] = sentinel_tuple 1"
    by (simp add: index_tuple_def sentinel_tuple_def)
  have e6: "\<forall>k<nat 1. [0xffffffff :: u32] ! k = 0xffffffff" by simp
  note one = C10_sentinel_and_bounds[OF h1 h2 h3, of 1]
  note two = C10_sentinel_and_bounds[OF h1 h2' h3, of 1]
  show ?thesis
    using one two h1 h2 h2' h3 e1 e2 e3 e4 e5 e6 by blast
qed

subsection \<open>The enumeration of a box\<close>

lemma in_box_Cons:
  "in_box (s # ss) (e # es) (c # cs) \<longleftrightarrow> s \<le> c \<and> c < e \<and> in_box ss es cs"
  by (auto simp: in_box_def)

lemma in_box_Nil: "in_box [] [] []"
  by (simp add: in_box_def)

lemma in_box_cases:
  assumes "in_box sta fin cur"
  obtains (Nil) "sta = []" "fin = []" "cur = []"
  | (Cons) s ss e es c cs where "sta = s # ss" "fin = e # es" "cur = c # cs"
      "s \<le> c" "c < e" "in_box ss es cs"
proof (cases cur)
  case Nil
  then show ?thesis using assms that(1) by (simp add: in_box_def)
next
  case (Cons c cs)
  then obtain s ss e es where "sta = s # ss" "fin = e # es"
    using assms by (auto simp: in_box_def list_all2_Cons2 list_all2_Cons1)
  then show ?thesis using assms Cons that(2) by (simp add: in_box_Cons)
qed

lemma lex_from_head:
  assumes "in_box sta fin cur"
  shows "\<exists>rest. lex_from cur sta fin = cur # rest"
  using assms
proof (cases rule: in_box_cases)
  case Nil
  then show ?thesis by simp
next
  case (Cons s ss e es c cs)
  then have "[c..<e] = c # [Suc c..<e]" by (simp add: upt_conv_Cons)
  then show ?thesis using Cons by simp
qed

lemma next_lexicographic_step:
  assumes "in_box sta fin cur" "next_lexicographic cur sta fin = (cur', go)"
  shows "(go \<longrightarrow> in_box sta fin cur' \<and> lex_from cur sta fin = cur # lex_from cur' sta fin)
       \<and> (\<not> go \<longrightarrow> lex_from cur sta fin = [cur])"
  using assms
proof (induction cur arbitrary: sta fin cur' go)
  case Nil
  then show ?case by (auto elim: in_box_cases)
next
  case (Cons c cs)
  from Cons.prems(1) obtain s ss e es where
    sf: "sta = s # ss" "fin = e # es" and b: "s \<le> c" "c < e" "in_box ss es cs"
    by (cases rule: in_box_cases) auto
  let ?row = "\<lambda>ds. map (\<lambda>x. x # ds) [s..<e]"
  show ?case
  proof (cases "c + 1 = e")
    case False
    then have n: "cur' = (c + 1) # cs" "go" using Cons.prems(2) sf by auto
    have "[c..<e] = c # [c + 1..<e]" using b by (simp add: upt_conv_Cons)
    then have "lex_from (c # cs) sta fin = (c # cs) # lex_from ((c + 1) # cs) sta fin"
      by (simp add: sf)
    moreover have "in_box sta fin ((c + 1) # cs)" using b False by (simp add: sf in_box_Cons)
    ultimately show ?thesis using n by simp
  next
    case True
    then have ce: "[c..<e] = [c]" by auto
    show ?thesis
    proof (cases "cs = []")
      case empty: True
      then have "ss = []" "es = []" using b(3) by (auto elim: in_box_cases)
      then show ?thesis using Cons.prems(2) sf True empty ce by auto
    next
      case nonempty: False
      obtain cs' go' where nx: "next_lexicographic cs ss es = (cs', go')"
        by (cases "next_lexicographic cs ss es")
      then have n: "cur' = s # cs'" "go = go'"
        using Cons.prems(2) sf True nonempty by auto
      note ih = Cons.IH[OF b(3) nx]
      show ?thesis
      proof (cases go')
        case False
        then have "lex_from cs ss es = [cs]" using ih by simp
        then show ?thesis using n False sf ce by simp
      next
        case True
        then have ib: "in_box ss es cs'" and lf: "lex_from cs ss es = cs # lex_from cs' ss es"
          using ih by simp_all
        from lex_from_head[OF ib] obtain rest where r: "lex_from cs' ss es = cs' # rest" by blast
        have "lex_from (c # cs) sta fin = (c # cs) # concat (map ?row (lex_from cs' ss es))"
          by (simp add: sf ce lf)
        also have "concat (map ?row (lex_from cs' ss es)) = lex_from (s # cs') sta fin"
          by (simp add: sf r)
        finally have "lex_from (c # cs) sta fin = (c # cs) # lex_from (s # cs') sta fin" .
        moreover have "in_box sta fin (s # cs')" using b ib by (simp add: sf in_box_Cons)
        ultimately show ?thesis using n True by simp
      qed
    qed
  qed
qed

lemma lex_from_start:
  assumes "in_box sta fin sta"
  shows "lex_from sta sta fin = lex_box sta fin"
  using assms
proof (induction sta arbitrary: fin)
  case Nil
  then show ?case by (auto elim: in_box_cases)
next
  case (Cons s ss)
  from Cons.prems obtain e es where
    f: "fin = e # es" and b: "s < e" "in_box ss es ss"
    by (cases rule: in_box_cases) auto
  from lex_from_head[OF b(2)] obtain rest where r: "lex_from ss ss es = ss # rest" by blast
  have "lex_box ss es = ss # rest" using Cons.IH[OF b(2)] r by simp
  then show ?case using r by (simp add: f)
qed

lemma set_lex_box:
  assumes "length sta = length fin"
  shows "set (lex_box sta fin) = {i. in_box sta fin i}"
  using assms
proof (induction sta fin rule: list_induct2)
  case Nil
  then show ?case by (auto simp: in_box_def)
next
  case (Cons s ss e es)
  show ?case
  proof (intro set_eqI iffI)
    fix i assume "i \<in> set (lex_box (s # ss) (e # es))"
    then obtain ds x where "ds \<in> set (lex_box ss es)" "s \<le> x" "x < e" "i = x # ds" by auto
    then show "i \<in> {i. in_box (s # ss) (e # es) i}" using Cons.IH by (simp add: in_box_Cons)
  next
    fix i assume "i \<in> {i. in_box (s # ss) (e # es) i}"
    then have ib: "in_box (s # ss) (e # es) i" by simp
    then obtain x ds where i: "i = x # ds" by (cases i) (auto simp: in_box_def)
    then have "s \<le> x" "x < e" "ds \<in> set (lex_box ss es)"
      using ib Cons.IH by (simp_all add: in_box_Cons)
    then show "i \<in> set (lex_box (s # ss) (e # es))"
      unfolding i by (auto intro!: bexI[of _ ds] image_eqI[of _ _ x])
  qed
qed

lemma set_lex_from_start:
  assumes "in_box sta fin sta"
  shows "x \<in> set (lex_from sta sta fin) \<longleftrightarrow> in_box sta fin x"
proof -
  have "length sta = length fin" using assms by (auto simp: in_box_def list_all2_conv_all_nth)
  from set_lex_box[OF this] show ?thesis unfolding lex_from_start[OF assms] by blast
qed

lemma lex_loop_appends:
  assumes "in_box sta fin cur"
    and "\<And>x st. x \<in> set (lex_from cur sta fin) \<Longrightarrow> body x st = Some (st @ f x)"
  shows "lex_loop body cur sta fin st = Some (st @ concat (map f (lex_from cur sta fin)))"
  using assms
proof (induction "length (lex_from cur sta fin)" arbitrary: cur st rule: less_induct)
  case less
  from lex_from_head[OF less.prems(1)] obtain rest where
    hd: "lex_from cur sta fin = cur # rest" by blast
  have b: "body cur st = Some (st @ f cur)" using less.prems(2)[of cur st] hd by simp
  obtain cur' go where nx: "next_lexicographic cur sta fin = (cur', go)"
    by (cases "next_lexicographic cur sta fin")
  note step = next_lexicographic_step[OF less.prems(1) nx]
  show ?case
  proof (cases go)
    case False
    then have "lex_from cur sta fin = [cur]" using step by simp
    then show ?thesis using b nx False by (subst lex_loop.simps) simp
  next
    case True
    then have ib: "in_box sta fin cur'" and lf: "lex_from cur sta fin = cur # lex_from cur' sta fin"
      using step by simp_all
    have "lex_loop body cur' sta fin (st @ f cur)
          = Some ((st @ f cur) @ concat (map f (lex_from cur' sta fin)))"
    proof (rule less.hyps[OF _ ib])
      show "length (lex_from cur' sta fin) < length (lex_from cur sta fin)" by (simp add: lf)
      show "\<And>x st. x \<in> set (lex_from cur' sta fin) \<Longrightarrow> body x st = Some (st @ f x)"
        using less.prems(2) lf by simp
    qed
    then show ?thesis using b nx True lf by (subst lex_loop.simps) simp
  qed
qed


lemma distinct_rows:
  assumes "distinct dss" "distinct xs"
  shows "distinct (concat (map (\<lambda>ds. map (\<lambda>x. x # ds) xs) dss))"
  using assms(1)
proof (induction dss)
  case Nil
  then show ?case by simp
next
  case (Cons d dss)
  have "distinct (map (\<lambda>x. x # d) xs)" using assms(2) by (simp add: distinct_map inj_on_def)
  moreover have "distinct (concat (map (\<lambda>ds. map (\<lambda>x. x # ds) xs) dss))"
    using Cons by simp
  moreover have "set (map (\<lambda>x. x # d) xs) \<inter> set (concat (map (\<lambda>ds. map (\<lambda>x. x # ds) xs) dss)) = {}"
    using Cons.prems by auto
  ultimately show ?case by simp
qed

lemma distinct_lex_box: "distinct (lex_box sta fin)"
proof (induction sta fin rule: lex_box.induct)
  case (1 s ss e es)
  then show ?case by (simp add: distinct_rows)
qed simp_all

lemma sum_list_concat_map:
  fixes g :: "'b \<Rightarrow> 'a :: monoid_add"
  shows "sum_list (map g (concat xss)) = sum_list (map (\<lambda>xs. sum_list (map g xs)) xss)"
  by (induction xss) simp_all

lemma sum_list_lex_box:
  fixes g :: "nat list \<Rightarrow> 'a :: comm_monoid_add"
  shows "sum_list (map g (lex_box (s # ss) (e # es)))
         = sum_list (map (\<lambda>ds. sum_list (map (\<lambda>x. g (x # ds)) [s..<e])) (lex_box ss es))"
  by (simp add: sum_list_concat_map comp_def)

subsection \<open>Linearised indices\<close>

lemma to_seq_acc_inj:
  "list_all2 (\<lambda>k n. k < n) ks ns \<Longrightarrow> list_all2 (\<lambda>k n. k < n) ks' ns
   \<Longrightarrow> to_seq_acc a ns ks = to_seq_acc a' ns ks' \<Longrightarrow> a = a' \<and> ks = ks'"
proof (induction ns arbitrary: a a' ks ks')
  case Nil
  then show ?case by simp
next
  case (Cons n ns)
  from Cons.prems(1) obtain k ks1 where ks: "ks = k # ks1" "k < n" "list_all2 (\<lambda>k n. k < n) ks1 ns"
    by (auto simp: list_all2_Cons2)
  from Cons.prems(2) obtain k' ks1' where ks': "ks' = k' # ks1'" "k' < n"
    "list_all2 (\<lambda>k n. k < n) ks1' ns"
    by (auto simp: list_all2_Cons2)
  have "to_seq_acc (a * n + k) ns ks1 = to_seq_acc (a' * n + k') ns ks1'"
    using Cons.prems(3) ks ks' by simp
  from Cons.IH[OF ks(3) ks'(3) this] have eq: "a * n + k = a' * n + k'" and t: "ks1 = ks1'"
    by simp_all
  have "(a * n + k) div n = a" "(a' * n + k') div n = a'" "(a * n + k) mod n = k"
    "(a' * n + k') mod n = k'"
    using ks(2) ks'(2) by simp_all
  then have "a = a'" "k = k'" using eq by metis+
  then show ?case using t ks ks' by simp
qed

lemma to_seq_inj:
  assumes "valid_index nd i" "valid_index nd j" "to_seq nd i = to_seq nd j"
  shows "i = j"
proof (cases nd)
  case Nil
  then show ?thesis using assms by (simp add: valid_index_def)
next
  case (Cons n ns)
  from assms(1) Cons obtain k ks where i: "i = k # ks" "list_all2 (\<lambda>k n. k < n) ks ns"
    by (auto simp: valid_index_def list_all2_Cons2)
  from assms(2) Cons obtain k' ks' where j: "j = k' # ks'" "list_all2 (\<lambda>k n. k < n) ks' ns"
    by (auto simp: valid_index_def list_all2_Cons2)
  have "to_seq_acc k ns ks = to_seq_acc k' ns ks'" using assms(3) Cons i j by simp
  from to_seq_acc_inj[OF i(2) j(2) this] show ?thesis using i j by simp
qed

lemma to_seq_acc_bound:
  "list_all2 (\<lambda>k n. k < n) ks ns \<Longrightarrow> a < A \<Longrightarrow> to_seq_acc a ns ks < A * prod_list ns"
proof (induction ns arbitrary: a A ks)
  case Nil
  then show ?case by simp
next
  case (Cons n ns)
  from Cons.prems(1) obtain k ks1 where ks: "ks = k # ks1" "k < n" "list_all2 (\<lambda>k n. k < n) ks1 ns"
    by (auto simp: list_all2_Cons2)
  have "a * n + k < (a + 1) * n" using ks(2) by simp
  also have "\<dots> \<le> A * n" using Cons.prems(2) by (intro mult_le_mono1) simp
  finally have "a * n + k < A * n" .
  from Cons.IH[OF ks(3) this] show ?case using ks by (simp add: mult.assoc)
qed

lemma to_seq_bound:
  assumes "valid_index nd i" "nd \<noteq> []"
  shows "to_seq nd i < prod_list nd"
proof -
  from assms obtain n ns where nd: "nd = n # ns" by (cases nd) auto
  from assms(1) nd obtain k ks where i: "i = k # ks" "k < n" "list_all2 (\<lambda>k n. k < n) ks ns"
    by (auto simp: valid_index_def list_all2_Cons2)
  from to_seq_acc_bound[OF i(3) i(2)] show ?thesis using nd i by simp
qed


subsection \<open>The triplets of the traversal\<close>

lemma emit_entries_eq:
  assumes "impl i j \<noteq> None"
  shows "emit_entries impl nd i j st = Some (st @ spec_pair_triplets impl nd i j)"
  using assms by (auto simp: emit_entries_def spec_pair_triplets_def Let_def)

lemma in_box_zero:
  "in_box (replicate (length ns) 0) ns xs \<longleftrightarrow> list_all2 (\<lambda>k n. k < n) xs ns"
  by (auto simp: in_box_def list_all2_conv_all_nth)

lemma neighbor_box_valid:
  assumes wf: "assembler_wf asm"
    and nr: "neighbor_ranges (meshsupp asm) i = Some (ns, ne)"
    and le: "list_all2 (\<lambda>e ms. e \<le> length ms) ne (meshsupp asm)"
    and j: "in_box ns ne j"
  shows "valid_index (ndofs asm) j"
proof -
  have a: "list_all2 (\<lambda>k e. k < e) j ne" using j by (simp add: in_box_def)
  have b: "list_all2 (\<lambda>n ms. 0 < n \<and> length ms = n) (ndofs asm) (meshsupp asm)"
    using wf by (simp add: assembler_wf_def)
  show ?thesis
    unfolding valid_index_def using a le b
    by (auto simp: list_all2_conv_all_nth) (metis order_less_le_trans)
qed

lemma assemble_row_eq:
  assumes wf: "assembler_wf asm" and i: "valid_index (ndofs asm) i"
    and impl: "impl_defined impl (ndofs asm)"
  shows "assemble_row impl asm i st = Some (st @ spec_row_triplets impl asm i)"
proof -
  from neighbor_ranges_in_box[OF wf_valid_in_tables[OF wf i]] obtain ns ne where
    nr: "neighbor_ranges (meshsupp asm) i = Some (ns, ne)" and ib: "in_box ns ne i"
    and le: "list_all2 (\<lambda>e ms. e \<le> length ms) ne (meshsupp asm)" by blast
  have start: "in_box ns ne ns"
    using ib by (auto simp: in_box_def list_all2_conv_all_nth) (metis order_le_less_trans)
  have body: "emit_entries impl (ndofs asm) i x s
              = Some (s @ spec_pair_triplets impl (ndofs asm) i x)"
    if "x \<in> set (lex_from ns ns ne)" for x s
  proof -
    have "in_box ns ne x" using that unfolding set_lex_from_start[OF start] .
    then have "valid_index (ndofs asm) x" by (rule neighbor_box_valid[OF wf nr le])
    then have "impl i x \<noteq> None" using impl i by (simp add: impl_defined_def)
    then show ?thesis by (rule emit_entries_eq)
  qed
  have "lex_loop (emit_entries impl (ndofs asm) i) ns ns ne st
        = Some (st @ concat (map (spec_pair_triplets impl (ndofs asm) i) (lex_from ns ns ne)))"
    by (rule lex_loop_appends[OF start body])
  then show ?thesis
    using nr lex_from_start[OF start] by (simp add: assemble_row_def spec_row_triplets_def)
qed

lemma dof_box:
  assumes wf: "assembler_wf asm"
  shows "dof_start asm cs = chunk_lo cs # replicate (length (ndofs asm) - 1) 0"
    and "dof_end asm ce = chunk_hi asm ce # tl (ndofs asm)"
proof -
  from wf obtain n ns where nd: "ndofs asm = n # ns"
    by (cases "ndofs asm") (auto simp: assembler_wf_def)
  show "dof_start asm cs = chunk_lo cs # replicate (length (ndofs asm) - 1) 0"
    by (simp add: dof_start_def chunk_lo_def nd Let_def)
  show "dof_end asm ce = chunk_hi asm ce # tl (ndofs asm)"
    by (simp add: dof_end_def chunk_hi_def nd Let_def)
qed

lemma chunk_box:
  assumes wf: "assembler_wf asm" and ab: "b \<le> ndofs asm ! 0"
  shows "in_box (a # replicate (length (ndofs asm) - 1) 0) (b # tl (ndofs asm)) i
         \<longleftrightarrow> valid_index (ndofs asm) i \<and> a \<le> i ! 0 \<and> i ! 0 < b"
proof -
  from wf obtain n ns where nd: "ndofs asm = n # ns"
    by (cases "ndofs asm") (auto simp: assembler_wf_def)
  show ?thesis
  proof (cases i)
    case Nil
    then show ?thesis by (simp add: in_box_def valid_index_def nd)
  next
    case (Cons x xs)
    then show ?thesis using ab by (auto simp: nd in_box_Cons in_box_zero valid_index_def)
  qed
qed

lemma assemble_triplets_eq:
  assumes wf: "assembler_wf asm" and impl: "impl_defined impl (ndofs asm)"
    and ab: "chunk_lo cs < chunk_hi asm ce" "chunk_hi asm ce \<le> ndofs asm ! 0"
  shows "assemble_triplets impl asm cs ce
         = Some (spec_triplets impl asm (chunk_lo cs) (chunk_hi asm ce))"
proof -
  let ?sta = "chunk_lo cs # replicate (length (ndofs asm) - 1) 0"
  let ?fin = "chunk_hi asm ce # tl (ndofs asm)"
  from wf obtain n ns where nd: "ndofs asm = n # ns"
    by (cases "ndofs asm") (auto simp: assembler_wf_def)
  have pos: "list_all2 (\<lambda>k n. k < n) (replicate (length ns) 0) ns"
    using wf by (auto simp: assembler_wf_def nd list_all2_conv_all_nth)
  have start: "in_box ?sta ?fin ?sta"
    using ab(1) pos by (simp add: nd in_box_Cons in_box_zero)
  have body: "assemble_row impl asm x s = Some (s @ spec_row_triplets impl asm x)"
    if "x \<in> set (lex_from ?sta ?sta ?fin)" for x s
  proof -
    have "in_box ?sta ?fin x" using that unfolding set_lex_from_start[OF start] .
    then have "valid_index (ndofs asm) x" using chunk_box[OF wf ab(2)] by simp
    then show ?thesis by (rule assemble_row_eq[OF wf _ impl])
  qed
  have "lex_loop (assemble_row impl asm) ?sta ?sta ?fin []
        = Some ([] @ concat (map (spec_row_triplets impl asm) (lex_from ?sta ?sta ?fin)))"
    by (rule lex_loop_appends[OF start body])
  then show ?thesis
    unfolding assemble_triplets_def spec_triplets_def dof_box[OF wf] lex_from_start[OF start]
    by (simp only: append_Nil)
qed

subsection \<open>The entries of the assembled matrix\<close>

lemma to_seq_acc_surj:
  "r < A * prod_list ns \<Longrightarrow> \<exists>a ks. a < A \<and> list_all2 (\<lambda>k n. k < n) ks ns \<and> to_seq_acc a ns ks = r"
proof (induction ns arbitrary: A)
  case Nil
  then show ?case by simp
next
  case (Cons n ns)
  have "r < (A * n) * prod_list ns" using Cons.prems by (simp add: mult.assoc)
  from Cons.IH[OF this] obtain a' ks where
    h: "a' < A * n" "list_all2 (\<lambda>k n. k < n) ks ns" "to_seq_acc a' ns ks = r" by blast
  have npos: "0 < n" using h(1) by (cases n) auto
  have "a' div n < A" using h(1) npos by (simp add: less_mult_imp_div_less)
  moreover have "a' mod n < n" using npos by simp
  moreover have "to_seq_acc (a' div n) (n # ns) (a' mod n # ks) = r" using h(3) by simp
  moreover have "list_all2 (\<lambda>k n. k < n) (a' mod n # ks) (n # ns)" using h(2) npos by simp
  ultimately show ?case by blast
qed

lemma to_seq_surj:
  assumes "nd \<noteq> []" "r < prod_list nd"
  shows "\<exists>I. valid_index nd I \<and> to_seq nd I = r"
proof -
  from assms(1) obtain n ns where nd: "nd = n # ns" by (cases nd) auto
  from to_seq_acc_surj[of r n ns] assms(2) nd obtain a ks where
    h: "a < n" "list_all2 (\<lambda>k n. k < n) ks ns" "to_seq_acc a ns ks = r" by auto
  have "valid_index nd (a # ks)" using h by (simp add: valid_index_def nd)
  moreover have "to_seq nd (a # ks) = r" using h by (simp add: nd)
  ultimately show ?thesis by blast
qed

lemma sum_list_single:
  fixes v :: "'a :: comm_monoid_add"
  assumes "distinct xs"
  shows "sum_list (map (\<lambda>x. if x = a then v else 0) xs) = (if a \<in> set xs then v else 0)"
  using assms by (induction xs) auto

lemma weighted_at_concat:
  "weighted_at w r c (concat (map f xs)) = sum_list (map (\<lambda>x. weighted_at w r c (f x)) xs)"
  by (induction xs) (simp_all add: weighted_at_def)

lemma weighted_at_pair:
  assumes v: "valid_index nd i" "valid_index nd j" "valid_index nd P" "valid_index nd Q"
    and le: "to_seq nd P \<le> to_seq nd Q"
    and rc: "(r = to_seq nd P \<and> c = to_seq nd Q) \<or> (r = to_seq nd Q \<and> c = to_seq nd P)"
    and d: "impl i j \<noteq> None"
  shows "weighted_at w r c (spec_pair_triplets impl nd i j)
         = (if i = P \<and> j = Q then w (the (impl P Q)) else 0)"
proof -
  from d obtain e where e: "impl i j = Some e" by auto
  have inj: "to_seq nd x = to_seq nd y \<longleftrightarrow> x = y"
    if "valid_index nd x" "valid_index nd y" for x y
    using to_seq_inj[OF that] by auto
  note I = inj[OF v(1) v(3)] inj[OF v(1) v(4)] inj[OF v(2) v(3)] inj[OF v(2) v(4)]
    inj[OF v(1) v(2)] inj[OF v(3) v(4)]
  show ?thesis
  proof (cases "i = P \<and> j = Q")
    case True
    define p q where "p = to_seq nd P" and "q = to_seq nd Q"
    have t: "spec_pair_triplets impl nd i j = (p, q, e) # (if p \<noteq> q then [(q, p, e)] else [])"
      using True e le by (simp add: spec_pair_triplets_def Let_def p_def q_def)
    have "(r = p \<and> c = q) \<or> (r = q \<and> c = p)" using rc by (simp add: p_def q_def)
    then have "weighted_at w r c ((p, q, e) # (if p \<noteq> q then [(q, p, e)] else [])) = w e"
      by (cases "p = q") (auto simp: weighted_at_def)
    then show ?thesis using True e t by simp
  next
    case False
    have "weighted_at w r c (spec_pair_triplets impl nd i j) = 0"
    proof (cases "to_seq nd i \<le> to_seq nd j")
      case nle: False
      then show ?thesis by (simp add: weighted_at_def spec_pair_triplets_def Let_def)
    next
      case ile: True
      have a: "\<not> (to_seq nd i = r \<and> to_seq nd j = c)"
      proof
        assume h: "to_seq nd i = r \<and> to_seq nd j = c"
        from rc show False
        proof
          assume "r = to_seq nd P \<and> c = to_seq nd Q"
          then show False using h I False by auto
        next
          assume q: "r = to_seq nd Q \<and> c = to_seq nd P"
          then have "to_seq nd Q \<le> to_seq nd P" using h ile by simp
          then have "to_seq nd P = to_seq nd Q" using le by simp
          then show False using h q I False by auto
        qed
      qed
      have b: "\<not> (to_seq nd i \<noteq> to_seq nd j \<and> to_seq nd j = r \<and> to_seq nd i = c)"
      proof
        assume h: "to_seq nd i \<noteq> to_seq nd j \<and> to_seq nd j = r \<and> to_seq nd i = c"
        from rc show False
        proof
          assume p: "r = to_seq nd P \<and> c = to_seq nd Q"
          then have "to_seq nd Q < to_seq nd P" using h ile by simp
          then show False using le by simp
        next
          assume "r = to_seq nd Q \<and> c = to_seq nd P"
          then show False using h I False by auto
        qed
      qed
      have t: "spec_pair_triplets impl nd i j
               = (to_seq nd i, to_seq nd j, e)
                 # (if to_seq nd i \<noteq> to_seq nd j then [(to_seq nd j, to_seq nd i, e)] else [])"
        using e ile by (simp add: spec_pair_triplets_def Let_def)
      show ?thesis unfolding t using a b by (auto simp: weighted_at_def)
    qed
    then show ?thesis by (simp only: False if_False)
  qed
qed


lemma weighted_at_row:
  assumes wf: "assembler_wf asm" and impl: "impl_defined impl (ndofs asm)"
    and v: "valid_index (ndofs asm) i" "valid_index (ndofs asm) P" "valid_index (ndofs asm) Q"
    and le: "to_seq (ndofs asm) P \<le> to_seq (ndofs asm) Q"
    and rc: "(r = to_seq (ndofs asm) P \<and> c = to_seq (ndofs asm) Q)
             \<or> (r = to_seq (ndofs asm) Q \<and> c = to_seq (ndofs asm) P)"
  shows "weighted_at w r c (spec_row_triplets impl asm i)
         = (if i = P \<and> in_neighbor_box asm P Q then w (the (impl P Q)) else 0)"
proof -
  from neighbor_ranges_in_box[OF wf_valid_in_tables[OF wf v(1)]] obtain ns ne where
    nr: "neighbor_ranges (meshsupp asm) i = Some (ns, ne)" and ib: "in_box ns ne i"
    and le': "list_all2 (\<lambda>e ms. e \<le> length ms) ne (meshsupp asm)" by blast
  have len: "length ns = length ne" using ib by (auto simp: in_box_def list_all2_conv_all_nth)
  have pair: "weighted_at w r c (spec_pair_triplets impl (ndofs asm) i j)
              = (if i = P \<and> j = Q then w (the (impl P Q)) else 0)"
    if "j \<in> set (lex_box ns ne)" for j
  proof -
    have "in_box ns ne j" using that set_lex_box[OF len] by simp
    then have vj: "valid_index (ndofs asm) j" by (rule neighbor_box_valid[OF wf nr le'])
    then have "impl i j \<noteq> None" using impl v(1) by (simp add: impl_defined_def)
    from weighted_at_pair[where impl = impl, OF v(1) vj v(2) v(3) le rc this] show ?thesis .
  qed
  have "weighted_at w r c (spec_row_triplets impl asm i)
        = sum_list (map (\<lambda>j. weighted_at w r c (spec_pair_triplets impl (ndofs asm) i j))
            (lex_box ns ne))"
    by (simp add: spec_row_triplets_def nr weighted_at_concat)
  also have "\<dots> = sum_list (map (\<lambda>j. if i = P \<and> j = Q then w (the (impl P Q)) else 0)
            (lex_box ns ne))"
    by (rule arg_cong[where f = sum_list], rule map_cong[OF refl]) (rule pair)
  also have "\<dots> = (if i = P \<and> in_neighbor_box asm P Q then w (the (impl P Q)) else 0)"
  proof (cases "i = P")
    case True
    have "sum_list (map (\<lambda>j. if j = Q then w (the (impl P Q)) else 0) (lex_box ns ne))
          = (if Q \<in> set (lex_box ns ne) then w (the (impl P Q)) else 0)"
      by (rule sum_list_single) (rule distinct_lex_box)
    moreover have "Q \<in> set (lex_box ns ne) \<longleftrightarrow> in_neighbor_box asm P Q"
      using set_lex_box[OF len] nr True by (simp add: in_neighbor_box_def)
    ultimately show ?thesis using True by simp
  next
    case False
    then show ?thesis by simp
  qed
  finally show ?thesis .
qed

lemma weighted_at_traversal:
  assumes wf: "assembler_wf asm" and impl: "impl_defined impl (ndofs asm)"
    and b: "b \<le> ndofs asm ! 0"
    and v: "valid_index (ndofs asm) P" "valid_index (ndofs asm) Q"
    and le: "to_seq (ndofs asm) P \<le> to_seq (ndofs asm) Q"
    and rc: "(r = to_seq (ndofs asm) P \<and> c = to_seq (ndofs asm) Q)
             \<or> (r = to_seq (ndofs asm) Q \<and> c = to_seq (ndofs asm) P)"
  shows "weighted_at w r c (spec_triplets impl asm a b)
         = (if a \<le> P ! 0 \<and> P ! 0 < b \<and> in_neighbor_box asm P Q then w (the (impl P Q)) else 0)"
proof -
  let ?sta = "a # replicate (length (ndofs asm) - 1) 0"
  let ?fin = "b # tl (ndofs asm)"
  from wf obtain n ns where nd: "ndofs asm = n # ns"
    by (cases "ndofs asm") (auto simp: assembler_wf_def)
  have len: "length ?sta = length ?fin" by (simp add: nd)
  have mem: "i \<in> set (lex_box ?sta ?fin) \<longleftrightarrow> valid_index (ndofs asm) i \<and> a \<le> i ! 0 \<and> i ! 0 < b"
    for i
    using set_lex_box[OF len] chunk_box[OF wf b, of a i] by blast
  have row: "weighted_at w r c (spec_row_triplets impl asm i)
             = (if i = P \<and> in_neighbor_box asm P Q then w (the (impl P Q)) else 0)"
    if "i \<in> set (lex_box ?sta ?fin)" for i
    using weighted_at_row[OF wf impl _ v le rc, of i] that mem by blast
  have "weighted_at w r c (spec_triplets impl asm a b)
        = sum_list (map (\<lambda>i. weighted_at w r c (spec_row_triplets impl asm i)) (lex_box ?sta ?fin))"
    by (simp only: spec_triplets_def weighted_at_concat)
  also have "\<dots> = sum_list (map (\<lambda>i. if i = P \<and> in_neighbor_box asm P Q
                                        then w (the (impl P Q)) else 0) (lex_box ?sta ?fin))"
    by (rule arg_cong[where f = sum_list], rule map_cong[OF refl]) (rule row)
  also have "\<dots> = (if a \<le> P ! 0 \<and> P ! 0 < b \<and> in_neighbor_box asm P Q
                    then w (the (impl P Q)) else 0)"
  proof (cases "in_neighbor_box asm P Q")
    case True
    have "sum_list (map (\<lambda>i. if i = P then w (the (impl P Q)) else 0) (lex_box ?sta ?fin))
          = (if P \<in> set (lex_box ?sta ?fin) then w (the (impl P Q)) else 0)"
      by (rule sum_list_single) (rule distinct_lex_box)
    then show ?thesis using True mem[of P] v(1) by simp
  next
    case False
    then show ?thesis by simp
  qed
  finally show ?thesis .
qed

lemma pair_triplets_bounded:
  assumes "valid_index nd i" "valid_index nd j" "nd \<noteq> []"
  shows "list_all (\<lambda>t. fst t < prod_list nd \<and> fst (snd t) < prod_list nd)
           (spec_pair_triplets impl nd i j)"
  using to_seq_bound[OF assms(1,3)] to_seq_bound[OF assms(2,3)]
  by (auto simp: spec_pair_triplets_def Let_def split: option.splits)

lemma list_all_concat_map:
  "(\<And>x. x \<in> set xs \<Longrightarrow> list_all Q (f x)) \<Longrightarrow> list_all Q (concat (map f xs))"
  by (induction xs) simp_all

lemma triplets_bounded:
  assumes wf: "assembler_wf asm" and b: "b \<le> ndofs asm ! 0"
  shows "list_all (\<lambda>t. fst t < prod_list (ndofs asm) \<and> fst (snd t) < prod_list (ndofs asm))
           (spec_triplets impl asm a b)"
  unfolding spec_triplets_def
proof (rule list_all_concat_map)
  fix i
  let ?sta = "a # replicate (length (ndofs asm) - 1) 0"
  let ?fin = "b # tl (ndofs asm)"
  assume "i \<in> set (lex_box ?sta ?fin)"
  from wf obtain n ns where nd: "ndofs asm = n # ns"
    by (cases "ndofs asm") (auto simp: assembler_wf_def)
  have len: "length ?sta = length ?fin" by (simp add: nd)
  have vi: "valid_index (ndofs asm) i"
    using \<open>i \<in> set (lex_box ?sta ?fin)\<close> set_lex_box[OF len] chunk_box[OF wf b, of a i] by blast
  from neighbor_ranges_in_box[OF wf_valid_in_tables[OF wf vi]] obtain ns' ne where
    nr: "neighbor_ranges (meshsupp asm) i = Some (ns', ne)" and ib: "in_box ns' ne i"
    and le': "list_all2 (\<lambda>e ms. e \<le> length ms) ne (meshsupp asm)" by blast
  have len': "length ns' = length ne" using ib by (auto simp: in_box_def list_all2_conv_all_nth)
  have "list_all (\<lambda>t. fst t < prod_list (ndofs asm) \<and> fst (snd t) < prod_list (ndofs asm))
          (concat (map (spec_pair_triplets impl (ndofs asm) i) (lex_box ns' ne)))"
  proof (rule list_all_concat_map)
    fix j assume "j \<in> set (lex_box ns' ne)"
    then have "in_box ns' ne j" using set_lex_box[OF len'] by simp
    then have "valid_index (ndofs asm) j" by (rule neighbor_box_valid[OF wf nr le'])
    then show "list_all (\<lambda>t. fst t < prod_list (ndofs asm) \<and> fst (snd t) < prod_list (ndofs asm))
                 (spec_pair_triplets impl (ndofs asm) i j)"
      using pair_triplets_bounded[OF vi] nd by simp
  qed
  then show "list_all (\<lambda>t. fst t < prod_list (ndofs asm) \<and> fst (snd t) < prod_list (ndofs asm))
               (spec_row_triplets impl asm i)"
    by (simp add: spec_row_triplets_def nr)
qed

lemma weighted_at_outside:
  assumes "list_all (\<lambda>t. fst t < N \<and> fst (snd t) < N) entries" "\<not> (r < N \<and> c < N)"
  shows "weighted_at w r c entries = 0"
  using assms by (induction entries) (auto simp: weighted_at_def)

lemma those_nth:
  "those xs = Some ys \<Longrightarrow> length ys = length xs \<and> (\<forall>k<length xs. xs ! k = Some (ys ! k))"
proof (induction xs arbitrary: ys)
  case Nil
  then show ?case by simp
next
  case (Cons x xs)
  then obtain y ys' where h: "x = Some y" "those xs = Some ys'" "ys = y # ys'"
    by (auto split: option.splits)
  from Cons.IH[OF h(2)] show ?case using h by (auto simp: nth_Cons')
qed

lemma valid_rows_in_tables:
  assumes "assembler_wf asm" "valid_index (ndofs asm) i"
  shows "rows_in_tables asm (length (ndofs asm)) i"
  using wf_valid_in_tables[OF assms] assms
  by (auto simp: rows_in_tables_def valid_index_def assembler_wf_def list_all2_conv_all_nth)

lemma outside_neighbor_box_disjoint:
  assumes wf: "assembler_wf asm" and bs: "bspline_tables asm"
    and v: "valid_index (ndofs asm) i" "valid_index (ndofs asm) j"
    and out: "\<not> in_neighbor_box asm i j"
  shows "\<exists>k<length (ndofs asm). supports_disjoint_on_axis asm k i j"
proof -
  define d where "d = length (ndofs asm)"
  have li: "length i = d" "length j = d" "length (meshsupp asm) = d"
    using v wf by (auto simp: valid_index_def assembler_wf_def d_def list_all2_conv_all_nth)
  have rows: "\<forall>k<d. i ! k < length (meshsupp asm ! k) \<and> j ! k < length (meshsupp asm ! k)"
    using valid_rows_in_tables[OF wf v(1)] valid_rows_in_tables[OF wf v(2)]
    by (simp add: rows_in_tables_def d_def)
  from neighbor_ranges_in_box[OF wf_valid_in_tables[OF wf v(1)]] obtain ns ne where
    nr: "neighbor_ranges (meshsupp asm) i = Some (ns, ne)" by blast
  then obtain intvs where
    th: "those (map2 (\<lambda>ms ik. find_joint_support_functions ms (int ik)) (meshsupp asm) i)
         = Some intvs"
    and ns: "ns = map (\<lambda>intv. nat (intv_a intv)) intvs"
    and ne: "ne = map (\<lambda>intv. nat (intv_b intv)) intvs"
    by (auto simp: neighbor_ranges_def split: option.splits)
  from those_nth[OF th] have
    len: "length intvs = d"
    and fj: "\<forall>k<d. find_joint_support_functions (meshsupp asm ! k) (int (i ! k)) = Some (intvs ! k)"
    using li by auto
  have "\<not> in_box ns ne j" using out nr by (simp add: in_neighbor_box_def)
  then obtain k where k: "k < d" "\<not> (ns ! k \<le> j ! k \<and> j ! k < ne ! k)"
    using li len by (auto simp: in_box_def ns ne list_all2_conv_all_nth)
  define ms where "ms = meshsupp asm ! k"
  have sorted: "left_sorted ms" "right_sorted ms" "supports_nonempty ms"
    using bs k(1) li by (auto simp: bspline_tables_def list_all_length ms_def)
  have ik: "i ! k < length ms" and jk: "j ! k < length ms" using rows k(1) by (auto simp: ms_def)
  have nei: "fst (ms ! (i ! k)) < snd (ms ! (i ! k))"
    using sorted(3) ik by (simp add: supports_nonempty_def)
  from find_joint_exact[OF sorted(1,2) nei ik] fj k(1) have
    ex: "0 \<le> intv_a (intvs ! k)"
        "\<forall>j'<length ms. supports_overlap (ms ! j') (ms ! (i ! k))
            \<longleftrightarrow> (intv_a (intvs ! k) \<le> int j' \<and> int j' < intv_b (intvs ! k))"
    by (auto simp: ms_def)
  have "\<not> (intv_a (intvs ! k) \<le> int (j ! k) \<and> int (j ! k) < intv_b (intvs ! k))"
    using k len ex(1) by (auto simp: ns ne)
  then have "\<not> supports_overlap (ms ! (j ! k)) (ms ! (i ! k))" using ex(2) jk by blast
  then have "supports_disjoint_on_axis asm k i j"
    by (simp add: supports_overlap_def supports_disjoint_on_axis_def intersect_intervals_def
        make_intv_def Let_def ms_def max.commute min.commute)
  then show ?thesis using k(1) by (auto simp: d_def)
qed

lemma mass2d_defined:
  assumes "assembler_wf asm" "length (ndofs asm) = 2"
  shows "impl_defined (MassAssembler2D_assemble_impl asm) (ndofs asm)"
  unfolding impl_defined_def
proof (intro allI impI)
  fix i j assume v: "valid_index (ndofs asm) i \<and> valid_index (ndofs asm) j"
  have r: "rows_in_tables asm 2 i" "rows_in_tables asm 2 j"
    using valid_rows_in_tables[OF assms(1)] v assms(2) by auto
  show "MassAssembler2D_assemble_impl asm i j \<noteq> None"
    unfolding MassAssembler2D_assemble_impl_def MassAssembler2D_assemble_impl_with_def
    by (simp add: axis_overlap_Some[OF r] Let_def)
qed

lemma stiff2d_defined:
  assumes "assembler_wf asm" "length (ndofs asm) = 2"
  shows "impl_defined (StiffnessAssembler2D_assemble_impl asm) (ndofs asm)"
  unfolding impl_defined_def
proof (intro allI impI)
  fix i j assume v: "valid_index (ndofs asm) i \<and> valid_index (ndofs asm) j"
  have r: "rows_in_tables asm 2 i" "rows_in_tables asm 2 j"
    using valid_rows_in_tables[OF assms(1)] v assms(2) by auto
  show "StiffnessAssembler2D_assemble_impl asm i j \<noteq> None"
    unfolding StiffnessAssembler2D_assemble_impl_def StiffnessAssembler2D_assemble_impl_with_def
    by (simp add: axis_overlap_Some[OF r] Let_def)
qed

lemma mass3d_defined:
  assumes "assembler_wf asm" "length (ndofs asm) = 3"
  shows "impl_defined (MassAssembler3D_assemble_impl asm) (ndofs asm)"
  unfolding impl_defined_def
proof (intro allI impI)
  fix i j assume v: "valid_index (ndofs asm) i \<and> valid_index (ndofs asm) j"
  have r: "rows_in_tables asm 3 i" "rows_in_tables asm 3 j"
    using valid_rows_in_tables[OF assms(1)] v assms(2) by auto
  show "MassAssembler3D_assemble_impl asm i j \<noteq> None"
    unfolding MassAssembler3D_assemble_impl_def MassAssembler3D_assemble_impl_with_def
    by (simp add: axis_overlap_Some[OF r] Let_def)
qed

lemma stiff3d_defined:
  assumes "assembler_wf asm" "length (ndofs asm) = 3"
  shows "impl_defined (StiffnessAssembler3D_assemble_impl asm) (ndofs asm)"
  unfolding impl_defined_def
proof (intro allI impI)
  fix i j assume v: "valid_index (ndofs asm) i \<and> valid_index (ndofs asm) j"
  have r: "rows_in_tables asm 3 i" "rows_in_tables asm 3 j"
    using valid_rows_in_tables[OF assms(1)] v assms(2) by auto
  show "StiffnessAssembler3D_assemble_impl asm i j \<noteq> None"
    unfolding StiffnessAssembler3D_assemble_impl_def StiffnessAssembler3D_assemble_impl_with_def
    by (simp add: axis_overlap_Some[OF r] Let_def)
qed

lemma generic_assemble_eq:
  assumes wf: "assembler_wf asm" and impl: "impl_defined impl (ndofs asm)"
    and ab: "chunk_lo cs < chunk_hi asm ce" "chunk_hi asm ce \<le> ndofs asm ! 0"
  shows "generic_assemble impl asm cs ce
         = Some \<lparr>shape = prod_list (ndofs asm),
                 entry_at = (\<lambda>r c. weighted_at (\<lambda>v. v) r c
                               (spec_triplets impl asm (chunk_lo cs) (chunk_hi asm ce)))\<rparr>"
proof -
  have t: "triplet_at r c = (\<lambda>t. if fst t = r \<and> fst (snd t) = c then snd (snd t) else 0)" for r c
    by (auto simp: triplet_at_def fun_eq_iff)
  have b: "list_all (\<lambda>(r, c, v). r < prod_list (ndofs asm) \<and> c < prod_list (ndofs asm))
             (spec_triplets impl asm (chunk_lo cs) (chunk_hi asm ce))"
    using triplets_bounded[OF wf ab(2), of impl "chunk_lo cs"]
    by (simp add: list_all_iff case_prod_beta)
  show ?thesis
    unfolding generic_assemble_def assemble_triplets_eq[OF wf impl ab]
    using b by (simp add: coo_matrix_tocsr_def weighted_at_def t)
qed

lemma tables_fit_rows:
  assumes "tables_fit_int asm" "rows_in_tables asm d i" "k < d"
  shows "endpoints_fit_int asm k i"
  using assms
  by (simp add: tables_fit_int_def rows_in_tables_def endpoints_fit_int_def list_all_length)


lemma stiff2d_vanishes_outside:
  assumes "assembler_wf asm" "bspline_tables asm" "tables_fit_int asm" "length (ndofs asm) = 2"
  shows "vanishes_outside (StiffnessAssembler2D_assemble_impl asm) asm"
  unfolding vanishes_outside_def
proof (intro allI impI)
  fix i j
  assume h: "valid_index (ndofs asm) i \<and> valid_index (ndofs asm) j \<and> \<not> in_neighbor_box asm i j"
  have r: "rows_in_tables asm 2 i" "rows_in_tables asm 2 j"
    using valid_rows_in_tables[OF assms(1)] h assms(4) by auto
  have "\<exists>k<2. supports_disjoint_on_axis asm k i j"
    using outside_neighbor_box_disjoint[OF assms(1,2), of i j] h assms(4) by simp
  then obtain k where k: "k < 2" "supports_disjoint_on_axis asm k i j" by blast
  have "endpoints_fit_int asm k i" "endpoints_fit_int asm k j"
    using tables_fit_rows[OF assms(3) r(1) k(1)] tables_fit_rows[OF assms(3) r(2) k(1)]
    by simp_all
  with k have "\<exists>k<2. supports_disjoint_on_axis asm k i j
      \<and> endpoints_fit_int asm k i \<and> endpoints_fit_int asm k j" by blast
  then show "StiffnessAssembler2D_assemble_impl asm i j = Some 0" by (rule stiff2d_zero[OF r])
qed

lemma mass3d_vanishes_outside:
  assumes "assembler_wf asm" "bspline_tables asm" "tables_fit_int asm" "length (ndofs asm) = 3"
  shows "vanishes_outside (MassAssembler3D_assemble_impl asm) asm"
  unfolding vanishes_outside_def
proof (intro allI impI)
  fix i j
  assume h: "valid_index (ndofs asm) i \<and> valid_index (ndofs asm) j \<and> \<not> in_neighbor_box asm i j"
  have r: "rows_in_tables asm 3 i" "rows_in_tables asm 3 j"
    using valid_rows_in_tables[OF assms(1)] h assms(4) by auto
  have "\<exists>k<3. supports_disjoint_on_axis asm k i j"
    using outside_neighbor_box_disjoint[OF assms(1,2), of i j] h assms(4) by simp
  then obtain k where k: "k < 3" "supports_disjoint_on_axis asm k i j" by blast
  have "endpoints_fit_int asm k i" "endpoints_fit_int asm k j"
    using tables_fit_rows[OF assms(3) r(1) k(1)] tables_fit_rows[OF assms(3) r(2) k(1)]
    by simp_all
  with k have "\<exists>k<3. supports_disjoint_on_axis asm k i j
      \<and> endpoints_fit_int asm k i \<and> endpoints_fit_int asm k j" by blast
  then show "MassAssembler3D_assemble_impl asm i j = Some 0" by (rule mass3d_zero[OF r])
qed

lemma stiff3d_vanishes_outside:
  assumes "assembler_wf asm" "bspline_tables asm" "tables_fit_int asm" "length (ndofs asm) = 3"
  shows "vanishes_outside (StiffnessAssembler3D_assemble_impl asm) asm"
  unfolding vanishes_outside_def
proof (intro allI impI)
  fix i j
  assume h: "valid_index (ndofs asm) i \<and> valid_index (ndofs asm) j \<and> \<not> in_neighbor_box asm i j"
  have r: "rows_in_tables asm 3 i" "rows_in_tables asm 3 j"
    using valid_rows_in_tables[OF assms(1)] h assms(4) by auto
  have "\<exists>k<3. supports_disjoint_on_axis asm k i j"
    using outside_neighbor_box_disjoint[OF assms(1,2), of i j] h assms(4) by simp
  then obtain k where k: "k < 3" "supports_disjoint_on_axis asm k i j" by blast
  have "endpoints_fit_int asm k i" "endpoints_fit_int asm k j"
    using tables_fit_rows[OF assms(3) r(1) k(1)] tables_fit_rows[OF assms(3) r(2) k(1)]
    by simp_all
  with k have "\<exists>k<3. supports_disjoint_on_axis asm k i j
      \<and> endpoints_fit_int asm k i \<and> endpoints_fit_int asm k j" by blast
  then show "StiffnessAssembler3D_assemble_impl asm i j = Some 0" by (rule stiff3d_zero[OF r])
qed

lemma example_mass_wf:
  "assembler_wf (example_mass 2)" "bspline_tables (example_mass 2)"
  "length (ndofs (example_mass 2)) = 2" "ndofs (example_mass 2) ! 0 = 2"
  "prod_list (ndofs (example_mass 2)) = 4" "tables_fit_int (example_mass 2)"
  by (simp_all add: assembler_wf_def bspline_tables_def example_mass_def left_sorted_def
      right_sorted_def supports_nonempty_def tables_fit_int_def fits_int_def
      numeral_2_eq_2 nth_Cons' less_Suc_eq)













subsection \<open>The sum of the chunks\<close>

lemma chunk_sum:
  fixes v :: "'a :: comm_monoid_add"
  shows "sum_list (map (\<lambda>k. if min (k * s) n \<le> p \<and> p < min (k * s + s) n then v else 0) [0..<m])
         = (if p < min (m * s) n then v else 0)"
proof (induction m)
  case 0
  then show ?case by simp
next
  case (Suc m)
  have "min (m * s) n \<le> min (m * s + s) n" by simp
  then show ?case using Suc by (auto simp: add.commute)
qed

lemma chunk_nonempty:
  assumes "0 < (s :: nat)" "k < (n + s - 1) div s"
  shows "k * s < n"
proof -
  have "Suc k \<le> (n + s - 1) div s" using assms(2) by simp
  then have "Suc k * s \<le> n + s - 1" using assms(1) by (simp add: less_eq_div_iff_mult_less_eq)
  then show ?thesis using assms(1) by simp
qed

lemma chunks_cover:
  assumes "0 < (s :: nat)"
  shows "n \<le> (n + s - 1) div s * s"
proof -
  have "(n + s - 1) div s * s + (n + s - 1) mod s = n + s - 1" by simp
  moreover have "(n + s - 1) mod s < s" using assms by simp
  ultimately show ?thesis by linarith
qed

lemma those_map_Some:
  "(\<And>x. x \<in> set xs \<Longrightarrow> f x = Some (g x)) \<Longrightarrow> those (map f xs) = Some (map g xs)"
  by (induction xs) auto

lemma py_sum_from_eq:
  "(\<And>x. x \<in> set xs \<Longrightarrow> shape x = shape acc)
   \<Longrightarrow> py_sum_from acc xs
       = Some \<lparr>shape = shape acc,
               entry_at = (\<lambda>r c. entry_at acc r c + sum_list (map (\<lambda>x. entry_at x r c) xs))\<rparr>"
proof (induction xs arbitrary: acc)
  case Nil
  show ?case by simp
next
  case (Cons x xs)
  let ?acc = "\<lparr>shape = shape acc, entry_at = (\<lambda>r c. entry_at acc r c + entry_at x r c)\<rparr>"
  have sx: "shape x = shape acc" by (rule Cons.prems) simp
  have m: "matrix_add acc x = Some ?acc" unfolding matrix_add_def using sx by simp
  have "py_sum_from ?acc xs
        = Some \<lparr>shape = shape ?acc,
                entry_at = (\<lambda>r c. entry_at ?acc r c + sum_list (map (\<lambda>x. entry_at x r c) xs))\<rparr>"
  proof (rule Cons.IH)
    fix y assume "y \<in> set xs"
    then have "shape y = shape acc" by (intro Cons.prems) simp
    then show "shape y = shape ?acc" by simp
  qed
  then show ?case unfolding py_sum_from.simps m option.case by (simp add: add.assoc)
qed

lemma py_sum_eq:
  assumes "xs \<noteq> []" "\<And>x. x \<in> set xs \<Longrightarrow> shape x = N"
  shows "py_sum xs
         = Some \<lparr>shape = N, entry_at = (\<lambda>r c. sum_list (map (\<lambda>x. entry_at x r c) xs))\<rparr>"
proof -
  from assms(1) obtain y ys where xs: "xs = y # ys" by (cases xs) auto
  have sy: "shape y = N" by (rule assms(2)) (simp add: xs)
  have "py_sum_from y ys
        = Some \<lparr>shape = shape y,
                entry_at = (\<lambda>r c. entry_at y r c + sum_list (map (\<lambda>x. entry_at x r c) ys))\<rparr>"
  proof (rule py_sum_from_eq)
    fix x assume "x \<in> set ys"
    then have "shape x = N" by (intro assms(2)) (simp add: xs)
    then show "shape x = shape y" by (simp only: sy)
  qed
  then show ?thesis unfolding xs py_sum.simps sy by simp
qed

lemma weighted_at_box:
  assumes wf: "assembler_wf asm" and impl: "impl_defined impl (ndofs asm)"
    and rc: "r < prod_list (ndofs asm)" "c < prod_list (ndofs asm)"
  shows "\<exists>p q x. p < ndofs asm ! 0
           \<and> (\<forall>a b. b \<le> ndofs asm ! 0
                \<longrightarrow> weighted_at w r c (spec_triplets impl asm a b)
                    = (if a \<le> p \<and> p < b \<and> q then w x else 0))"
proof -
  have nd: "ndofs asm \<noteq> []" using wf by (simp add: assembler_wf_def)
  from to_seq_surj[OF nd rc(1)] obtain P where
    P: "valid_index (ndofs asm) P" "to_seq (ndofs asm) P = r" by blast
  from to_seq_surj[OF nd rc(2)] obtain Q where
    Q: "valid_index (ndofs asm) Q" "to_seq (ndofs asm) Q = c" by blast
  have first: "X ! 0 < ndofs asm ! 0" if "valid_index (ndofs asm) X" for X
    using that nd by (cases "ndofs asm"; cases X) (auto simp: valid_index_def)
  show ?thesis
  proof (cases "r \<le> c")
    case True
    have le: "to_seq (ndofs asm) P \<le> to_seq (ndofs asm) Q" using True P(2) Q(2) by simp
    have e: "(r = to_seq (ndofs asm) P \<and> c = to_seq (ndofs asm) Q)
             \<or> (r = to_seq (ndofs asm) Q \<and> c = to_seq (ndofs asm) P)" using P(2) Q(2) by simp
    have "\<forall>a b. b \<le> ndofs asm ! 0 \<longrightarrow> weighted_at w r c (spec_triplets impl asm a b)
          = (if a \<le> P ! 0 \<and> P ! 0 < b \<and> in_neighbor_box asm P Q then w (the (impl P Q)) else 0)"
      using weighted_at_traversal[where w = w, OF wf impl _ P(1) Q(1) le e] by blast
    with first[OF P(1)] show ?thesis by blast
  next
    case False
    have le: "to_seq (ndofs asm) Q \<le> to_seq (ndofs asm) P" using False P(2) Q(2) by simp
    have e: "(r = to_seq (ndofs asm) Q \<and> c = to_seq (ndofs asm) P)
             \<or> (r = to_seq (ndofs asm) P \<and> c = to_seq (ndofs asm) Q)" using P(2) Q(2) by simp
    have "\<forall>a b. b \<le> ndofs asm ! 0 \<longrightarrow> weighted_at w r c (spec_triplets impl asm a b)
          = (if a \<le> Q ! 0 \<and> Q ! 0 < b \<and> in_neighbor_box asm Q P then w (the (impl Q P)) else 0)"
      using weighted_at_traversal[where w = w, OF wf impl _ Q(1) P(1) le e] by blast
    with first[OF Q(1)] show ?thesis by blast
  qed
qed

lemma chunks_weighted:
  assumes wf: "assembler_wf asm" and impl: "impl_defined impl (ndofs asm)"
    and m: "ndofs asm ! 0 \<le> m * s"
  shows "sum_list (map (\<lambda>k. weighted_at w r c
             (spec_triplets impl asm (min (k * s) (ndofs asm ! 0))
                (min (k * s + s) (ndofs asm ! 0)))) [0..<m])
         = weighted_at w r c (spec_triplets impl asm 0 (ndofs asm ! 0))"
proof (cases "r < prod_list (ndofs asm) \<and> c < prod_list (ndofs asm)")
  case True
  from weighted_at_box[OF wf impl, of r c w] True obtain p q x where
    p: "p < ndofs asm ! 0"
    and e: "\<And>a b. b \<le> ndofs asm ! 0
             \<Longrightarrow> weighted_at w r c (spec_triplets impl asm a b)
                 = (if a \<le> p \<and> p < b \<and> q then w x else 0)"
    by blast
  define v where "v = (if q then w x else 0)"
  have e': "weighted_at w r c (spec_triplets impl asm a b) = (if a \<le> p \<and> p < b then v else 0)"
    if "b \<le> ndofs asm ! 0" for a b
    unfolding e[OF that] v_def by simp
  have "sum_list (map (\<lambda>k. weighted_at w r c
             (spec_triplets impl asm (min (k * s) (ndofs asm ! 0))
                (min (k * s + s) (ndofs asm ! 0)))) [0..<m])
        = sum_list (map (\<lambda>k. if min (k * s) (ndofs asm ! 0) \<le> p
                                  \<and> p < min (k * s + s) (ndofs asm ! 0) then v else 0) [0..<m])"
    by (rule arg_cong[where f = sum_list], rule map_cong[OF refl], rule e') simp
  also have "\<dots> = (if p < min (m * s) (ndofs asm ! 0) then v else 0)" by (rule chunk_sum)
  also have "\<dots> = v" using p m by simp
  also have "\<dots> = weighted_at w r c (spec_triplets impl asm 0 (ndofs asm ! 0))"
    unfolding e'[OF order_refl] using p by simp
  finally show ?thesis .
next
  case False
  have z: "weighted_at w r c (spec_triplets impl asm a b) = 0" if "b \<le> ndofs asm ! 0" for a b
    by (rule weighted_at_outside[OF triplets_bounded[OF wf that] False])
  have "sum_list (map (\<lambda>k. weighted_at w r c
             (spec_triplets impl asm (min (k * s) (ndofs asm ! 0))
                (min (k * s + s) (ndofs asm ! 0)))) [0..<m])
        = sum_list (map (\<lambda>k. 0) [0..<m])"
    by (rule arg_cong[where f = sum_list], rule map_cong[OF refl], rule z) simp
  then show ?thesis unfolding z[OF order_refl] by simp
qed

lemma count_at_weighted: "count_at r c entries = weighted_at (\<lambda>v. 1) r c entries"
  unfolding count_at_def weighted_at_def by (induction entries) auto

lemma count_at_traversal:
  assumes wf: "assembler_wf asm" and impl: "impl_defined impl (ndofs asm)"
    and b: "b \<le> ndofs asm ! 0"
  shows "count_at r c (spec_triplets impl asm a b) \<le> 1"
proof (cases "r < prod_list (ndofs asm) \<and> c < prod_list (ndofs asm)")
  case True
  from weighted_at_box[OF wf impl, of r c "\<lambda>v. 1 :: nat"] True obtain p q x where
    e: "\<And>a b. b \<le> ndofs asm ! 0
             \<Longrightarrow> weighted_at (\<lambda>v. 1 :: nat) r c (spec_triplets impl asm a b)
                 = (if a \<le> p \<and> p < b \<and> q then 1 else 0)"
    by blast
  show ?thesis unfolding count_at_weighted e[OF b] by simp
next
  case False
  show ?thesis
    unfolding count_at_weighted weighted_at_outside[OF triplets_bounded[OF wf b] False] by simp
qed

subsection \<open>The parallel driver and the sequential run\<close>

lemma chunk_lo_hi_int: "chunk_lo (int a) = a" "chunk_hi asm (int b) = b"
  "chunk_lo (- 1) = 0" "chunk_hi asm (- 1) = ndofs asm ! 0"
  by (simp_all add: chunk_lo_def chunk_hi_def)

lemma wf_first_pos: "assembler_wf asm \<Longrightarrow> 0 < ndofs asm ! 0"
  by (cases "ndofs asm"; cases "meshsupp asm") (auto simp: assembler_wf_def)

lemma sequential_eq:
  assumes wf: "assembler_wf asm" and impl: "impl_defined impl (ndofs asm)"
  shows "generic_assemble impl asm (- 1) (- 1)
         = Some \<lparr>shape = prod_list (ndofs asm),
                 entry_at = (\<lambda>r c. weighted_at (\<lambda>v. v) r c
                               (spec_triplets impl asm 0 (ndofs asm ! 0)))\<rparr>"
  using generic_assemble_eq[OF wf impl, of "- 1" "- 1"] wf_first_pos[OF wf]
  unfolding chunk_lo_hi_int by simp

lemma asm_chunk_eq:
  assumes wf: "assembler_wf asm" and impl: "impl_defined impl (ndofs asm)"
    and s: "0 < s" and k: "k * s < ndofs asm ! 0"
  shows "asm_chunk impl asm \<lparr>range_start = min (k * s) (ndofs asm ! 0),
                              range_stop = min (k * s + s) (ndofs asm ! 0)\<rparr>
         = Some \<lparr>shape = prod_list (ndofs asm),
                 entry_at = (\<lambda>r c. weighted_at (\<lambda>v. v) r c
                    (spec_triplets impl asm (min (k * s) (ndofs asm ! 0))
                       (min (k * s + s) (ndofs asm ! 0))))\<rparr>"
    and "assemble_triplets impl asm (int (min (k * s) (ndofs asm ! 0)))
           (int (min (k * s + s) (ndofs asm ! 0)))
         = Some (spec_triplets impl asm (min (k * s) (ndofs asm ! 0))
                   (min (k * s + s) (ndofs asm ! 0)))"
proof -
  let ?a = "min (k * s) (ndofs asm ! 0)" and ?b = "min (k * s + s) (ndofs asm ! 0)"
  have ab: "chunk_lo (int ?a) < chunk_hi asm (int ?b)" "chunk_hi asm (int ?b) \<le> ndofs asm ! 0"
    unfolding chunk_lo_hi_int using s k by simp_all
  show "asm_chunk impl asm \<lparr>range_start = ?a, range_stop = ?b\<rparr>
        = Some \<lparr>shape = prod_list (ndofs asm),
                entry_at = (\<lambda>r c. weighted_at (\<lambda>v. v) r c (spec_triplets impl asm ?a ?b))\<rparr>"
    using generic_assemble_eq[OF wf impl ab] unfolding chunk_lo_hi_int
    by (simp add: asm_chunk_def shared_clone_def)
  show "assemble_triplets impl asm (int ?a) (int ?b) = Some (spec_triplets impl asm ?a ?b)"
    using assemble_triplets_eq[OF wf impl ab] unfolding chunk_lo_hi_int .
qed

lemma parallel_eq:
  assumes wf: "assembler_wf asm" and impl: "impl_defined impl (ndofs asm)" and W: "1 < W"
  shows "generic_assemble_parallel impl asm W
         = Some \<lparr>shape = prod_list (ndofs asm),
                 entry_at = (\<lambda>r c. weighted_at (\<lambda>v. v) r c
                               (spec_triplets impl asm 0 (ndofs asm ! 0)))\<rparr>"
proof -
  define n where "n = ndofs asm ! 0"
  define s where "s = n div nat (4 * W) + 1"
  define m where "m = (n + s - 1) div s"
  define R where "R = (\<lambda>k. \<lparr>range_start = min (k * s) n, range_stop = min (k * s + s) n\<rparr>)"
  define G where "G = (\<lambda>k. \<lparr>shape = prod_list (ndofs asm),
     entry_at = (\<lambda>r c. weighted_at (\<lambda>v. v) r c
        (spec_triplets impl asm (min (k * s) n) (min (k * s + s) n)))\<rparr>)"
  have s: "0 < s" by (simp add: s_def)
  have n: "0 < n" unfolding n_def by (rule wf_first_pos[OF wf])
  have m: "0 < m" unfolding m_def using s n by (simp add: div_greater_zero_iff)
  have cover: "n \<le> m * s" unfolding m_def by (rule chunks_cover[OF s])
  have ct: "chunk_tasks (range_it n) (4 * W) = Some (map R [0..<m])"
    unfolding chunk_tasks_eq[OF W] R_def m_def s_def ..
  have "those (map (asm_chunk impl asm) (map R [0..<m])) = those (map (\<lambda>k. asm_chunk impl asm (R k)) [0..<m])"
    by (simp add: comp_def)
  also have "\<dots> = Some (map G [0..<m])"
  proof (rule those_map_Some)
    fix k assume "k \<in> set [0..<m]"
    then have "k * s < n" using chunk_nonempty[OF s, of k n] by (simp add: m_def)
    then show "asm_chunk impl asm (R k) = Some (G k)"
      unfolding R_def G_def n_def by (rule asm_chunk_eq(1)[OF wf impl s])
  qed
  finally have th: "those (map (asm_chunk impl asm) (map R [0..<m])) = Some (map G [0..<m])" .
  have ne: "map G [0..<m] \<noteq> []" using m by simp
  have "py_sum (map G [0..<m])
        = Some \<lparr>shape = prod_list (ndofs asm),
                entry_at = (\<lambda>r c. sum_list (map (\<lambda>x. entry_at x r c) (map G [0..<m])))\<rparr>"
    by (rule py_sum_eq[OF ne]) (auto simp: G_def)
  also have "(\<lambda>r c. sum_list (map (\<lambda>x. entry_at x r c) (map G [0..<m])))
             = (\<lambda>r c. weighted_at (\<lambda>v. v) r c (spec_triplets impl asm 0 (ndofs asm ! 0)))"
  proof (intro ext)
    fix r c
    have "sum_list (map (\<lambda>x. entry_at x r c) (map G [0..<m]))
          = sum_list (map (\<lambda>k. weighted_at (\<lambda>v. v) r c
              (spec_triplets impl asm (min (k * s) (ndofs asm ! 0))
                 (min (k * s + s) (ndofs asm ! 0)))) [0..<m])"
      by (simp add: comp_def G_def n_def)
    also have "\<dots> = weighted_at (\<lambda>v. v) r c (spec_triplets impl asm 0 (ndofs asm ! 0))"
      by (rule chunks_weighted[OF wf impl]) (use cover in \<open>simp add: n_def\<close>)
    finally show "sum_list (map (\<lambda>x. entry_at x r c) (map G [0..<m]))
          = weighted_at (\<lambda>v. v) r c (spec_triplets impl asm 0 (ndofs asm ! 0))" .
  qed
  finally have sum: "py_sum (map G [0..<m])
        = Some \<lparr>shape = prod_list (ndofs asm),
                entry_at = (\<lambda>r c. weighted_at (\<lambda>v. v) r c
                              (spec_triplets impl asm 0 (ndofs asm ! 0)))\<rparr>" .
  show ?thesis
    unfolding generic_assemble_parallel_def using W ct th sum by (simp add: n_def)
qed

lemma chunks_one_worker:
  assumes wf: "assembler_wf asm" and impl: "impl_defined impl (ndofs asm)" and W: "1 < W"
  shows "\<exists>chunks. chunk_tasks (range_it (ndofs asm ! 0)) (4 * W) = Some chunks
           \<and> list_all (\<lambda>rg. asm_chunk impl asm rg \<noteq> None) chunks
           \<and> (\<forall>r c. sum_list (map (\<lambda>rg. count_at r c
                  (the (assemble_triplets impl asm (int (range_start rg)) (int (range_stop rg)))))
                  chunks)
                = count_at r c (the (assemble_triplets impl asm (- 1) (- 1))))"
proof -
  define n where "n = ndofs asm ! 0"
  define s where "s = n div nat (4 * W) + 1"
  define m where "m = (n + s - 1) div s"
  define R where "R = (\<lambda>k. \<lparr>range_start = min (k * s) n, range_stop = min (k * s + s) n\<rparr>)"
  have s: "0 < s" by (simp add: s_def)
  have n: "0 < n" unfolding n_def by (rule wf_first_pos[OF wf])
  have cover: "n \<le> m * s" unfolding m_def by (rule chunks_cover[OF s])
  have ct: "chunk_tasks (range_it n) (4 * W) = Some (map R [0..<m])"
    unfolding chunk_tasks_eq[OF W] R_def m_def s_def ..
  have k: "k * s < ndofs asm ! 0" if "k < m" for k
    using chunk_nonempty[OF s, of k n] that by (simp add: m_def n_def)
  have ret: "list_all (\<lambda>rg. asm_chunk impl asm rg \<noteq> None) (map R [0..<m])"
    using asm_chunk_eq(1)[OF wf impl s k] by (simp add: list_all_iff R_def n_def)
  have seq: "assemble_triplets impl asm (- 1) (- 1)
             = Some (spec_triplets impl asm 0 (ndofs asm ! 0))"
    using assemble_triplets_eq[OF wf impl, of "- 1" "- 1"] wf_first_pos[OF wf]
    unfolding chunk_lo_hi_int by simp
  have cnt: "sum_list (map (\<lambda>rg. count_at r c
                  (the (assemble_triplets impl asm (int (range_start rg)) (int (range_stop rg)))))
                  (map R [0..<m]))
             = count_at r c (the (assemble_triplets impl asm (- 1) (- 1)))" for r c
  proof -
    have "sum_list (map (\<lambda>rg. count_at r c
                  (the (assemble_triplets impl asm (int (range_start rg)) (int (range_stop rg)))))
                  (map R [0..<m]))
          = sum_list (map (\<lambda>k. weighted_at (\<lambda>v. 1) r c
              (spec_triplets impl asm (min (k * s) (ndofs asm ! 0))
                 (min (k * s + s) (ndofs asm ! 0)))) [0..<m])"
      unfolding map_map comp_def
      by (rule arg_cong[where f = sum_list], rule map_cong[OF refl])
        (simp add: R_def n_def asm_chunk_eq(2)[OF wf impl s k] count_at_weighted)
    also have "\<dots> = weighted_at (\<lambda>v. 1) r c (spec_triplets impl asm 0 (ndofs asm ! 0))"
      by (rule chunks_weighted[OF wf impl]) (use cover in \<open>simp add: n_def\<close>)
    finally show ?thesis unfolding seq count_at_weighted by simp
  qed
  from ct ret cnt show ?thesis unfolding n_def by blast
qed


text \<open>
  C1: for a well-formed assembler whose \<open>assemble_impl\<close> returns on valid multi-indices,
  and for every value \<open>W\<close> of the worker count, the parallel driver returns, and returns
  exactly the sparse matrix of the sequential run of \<open>generic_assemble\<close> over the whole
  range of axis 0. For \<open>W \<le> 1\<close> it is that run; for \<open>W > 1\<close> every chunk run returns and the
  coordinate-wise sum of their matrices is the sequential matrix. The sequential run emits
  at most one triplet at a coordinate, and over all chunk runs together a coordinate
  receives as many triplets as in the sequential run: an entry is computed whole in one call
  of \<open>assemble_impl\<close> by one worker and the sum adds nothing to it. The four assemblers
  (mass and stiffness, 2-D and 3-D) have an \<open>assemble_impl\<close> that returns on valid
  multi-indices.
\<close>

theorem C1_parallel_equals_sequential:
  assumes wf: "assembler_wf asm" and impl: "impl_defined impl (ndofs asm)"
  shows "generic_assemble_parallel impl asm W = generic_assemble impl asm (- 1) (- 1)
    \<and> generic_assemble impl asm (- 1) (- 1) \<noteq> None
    \<and> (\<forall>r c. count_at r c (the (assemble_triplets impl asm (- 1) (- 1))) \<le> 1)
    \<and> (1 < W \<longrightarrow>
         (\<exists>chunks. chunk_tasks (range_it (ndofs asm ! 0)) (4 * W) = Some chunks
            \<and> list_all (\<lambda>rg. asm_chunk impl asm rg \<noteq> None) chunks
            \<and> (\<forall>r c. sum_list (map (\<lambda>rg. count_at r c
                   (the (assemble_triplets impl asm (int (range_start rg))
                          (int (range_stop rg))))) chunks)
                 = count_at r c (the (assemble_triplets impl asm (- 1) (- 1))))))
    \<and> (\<forall>masm :: MassAssembler. assembler_wf masm \<and> length (ndofs masm) = 2
          \<longrightarrow> impl_defined (MassAssembler2D_assemble_impl masm) (ndofs masm))
    \<and> (\<forall>masm :: MassAssembler. assembler_wf masm \<and> length (ndofs masm) = 3
          \<longrightarrow> impl_defined (MassAssembler3D_assemble_impl masm) (ndofs masm))
    \<and> (\<forall>sasm :: StiffnessAssembler. assembler_wf sasm \<and> length (ndofs sasm) = 2
          \<longrightarrow> impl_defined (StiffnessAssembler2D_assemble_impl sasm) (ndofs sasm))
    \<and> (\<forall>sasm :: StiffnessAssembler. assembler_wf sasm \<and> length (ndofs sasm) = 3
          \<longrightarrow> impl_defined (StiffnessAssembler3D_assemble_impl sasm) (ndofs sasm))"
proof -
  have seq: "assemble_triplets impl asm (- 1) (- 1)
             = Some (spec_triplets impl asm 0 (ndofs asm ! 0))"
    using assemble_triplets_eq[OF wf impl, of "- 1" "- 1"] wf_first_pos[OF wf]
    unfolding chunk_lo_hi_int by simp
  have c1: "generic_assemble_parallel impl asm W = generic_assemble impl asm (- 1) (- 1)"
  proof (cases "1 < W")
    case True
    show ?thesis unfolding parallel_eq[OF wf impl True] sequential_eq[OF wf impl] ..
  next
    case False
    then show ?thesis by (simp add: generic_assemble_parallel_def)
  qed
  have c2: "generic_assemble impl asm (- 1) (- 1) \<noteq> None"
    unfolding sequential_eq[OF wf impl] by simp
  have c3: "\<forall>r c. count_at r c (the (assemble_triplets impl asm (- 1) (- 1))) \<le> 1"
    unfolding seq option.sel using count_at_traversal[OF wf impl order_refl] by blast
  have c4: "1 < W \<longrightarrow>
         (\<exists>chunks. chunk_tasks (range_it (ndofs asm ! 0)) (4 * W) = Some chunks
            \<and> list_all (\<lambda>rg. asm_chunk impl asm rg \<noteq> None) chunks
            \<and> (\<forall>r c. sum_list (map (\<lambda>rg. count_at r c
                   (the (assemble_triplets impl asm (int (range_start rg))
                          (int (range_stop rg))))) chunks)
                 = count_at r c (the (assemble_triplets impl asm (- 1) (- 1)))))"
    using chunks_one_worker[OF wf impl] by blast
  have c5: "\<forall>masm :: MassAssembler. assembler_wf masm \<and> length (ndofs masm) = 2
          \<longrightarrow> impl_defined (MassAssembler2D_assemble_impl masm) (ndofs masm)"
    using mass2d_defined by blast
  have c6: "\<forall>masm :: MassAssembler. assembler_wf masm \<and> length (ndofs masm) = 3
          \<longrightarrow> impl_defined (MassAssembler3D_assemble_impl masm) (ndofs masm)"
    using mass3d_defined by blast
  have c7: "\<forall>sasm :: StiffnessAssembler. assembler_wf sasm \<and> length (ndofs sasm) = 2
          \<longrightarrow> impl_defined (StiffnessAssembler2D_assemble_impl sasm) (ndofs sasm)"
    using stiff2d_defined by blast
  have c8: "\<forall>sasm :: StiffnessAssembler. assembler_wf sasm \<and> length (ndofs sasm) = 3
          \<longrightarrow> impl_defined (StiffnessAssembler3D_assemble_impl sasm) (ndofs sasm)"
    using stiff3d_defined by blast
  from c1 c2 c3 c4 c5 c6 c7 c8 show ?thesis by (intro conjI)
qed

theorem C1_parallel_equals_sequential_witness:
  "assembler_wf (example_mass 2)
   \<and> impl_defined (MassAssembler2D_assemble_impl (example_mass 2)) (ndofs (example_mass 2))
   \<and> chunk_tasks (range_it (ndofs (example_mass 2) ! 0)) (4 * 2)
      = Some [\<lparr>range_start = 0, range_stop = 1\<rparr>, \<lparr>range_start = 1, range_stop = 2\<rparr>]
   \<and> generic_assemble_parallel (MassAssembler2D_assemble_impl (example_mass 2)) (example_mass 2) 2
      = generic_assemble (MassAssembler2D_assemble_impl (example_mass 2)) (example_mass 2)
          (- 1) (- 1)
   \<and> generic_assemble (MassAssembler2D_assemble_impl (example_mass 2)) (example_mass 2)
        (- 1) (- 1) \<noteq> None"
proof -
  let ?asm = "example_mass 2"
  let ?impl = "MassAssembler2D_assemble_impl ?asm"
  note wf = example_mass_wf(1)
  have impl: "impl_defined ?impl (ndofs ?asm)"
    by (rule mass2d_defined[OF example_mass_wf(1,3)])
  have ct: "chunk_tasks (range_it (ndofs ?asm ! 0)) (4 * 2)
      = Some [\<lparr>range_start = 0, range_stop = 1\<rparr>, \<lparr>range_start = 1, range_stop = 2\<rparr>]"
    unfolding example_mass_wf(4)
    by (simp add: chunk_tasks_def range_it_def range_len_def range_slice_def Let_def upt_rec)
  from C1_parallel_equals_sequential[OF wf impl, of 2] have
    "generic_assemble_parallel ?impl ?asm 2 = generic_assemble ?impl ?asm (- 1) (- 1)"
    "generic_assemble ?impl ?asm (- 1) (- 1) \<noteq> None"
    by blast+
  with wf impl ct show ?thesis by (intro conjI)
qed

end
